theory Spec2Isabelle
  imports Main "HOL-Library.Word"
begin

unbundle bit_operations_syntax

section \<open>Go values used by \<open>cmd/protodemo/main.go\<close>\<close>

text \<open>
  A Go \<open>byte\<close> is an \<open>8 word\<close>, \<open>uint64\<close> a \<open>64 word\<close>, \<open>tagNum = uint32\<close> a
  \<open>32 word\<close>. Go's \<open>int\<close> (64 bit) is modelled as \<open>int\<close>; every \<open>int\<close> the program
  computes is a position bounded by the capacity of a slice, except \<open>start + int(v)\<close> in
  \<open>readNext\<close>, where the two's complement wrap-around is written out (\<open>wrapInt\<close>).

  A Go slice is a window on a backing array: \<open>vis\<close> are the elements below \<open>len\<close>,
  \<open>spare\<close> the elements of the backing array from \<open>len\<close> up to \<open>cap\<close>. A slice
  expression on a slice is checked against the capacity, not the length, and panics when
  its bounds are out of range.
\<close>

type_synonym byte = "8 word"
type_synonym uint64 = "64 word"
type_synonym tagNum = "32 word"
type_synonym tagClass = "8 word"

datatype fault = SliceBounds | IndexRange

record slice =
  vis :: "byte list"
  spare :: "byte list"

definition nil :: slice where
  "nil = \<lparr>vis = [], spare = []\<rparr>"

definition len :: "slice \<Rightarrow> int" where
  "len s = int (length (vis s))"

definition cap :: "slice \<Rightarrow> int" where
  "cap s = int (length (vis s) + length (spare s))"

text \<open>\<open>s[lo:]\<close>: the upper bound defaults to \<open>len(s)\<close>.\<close>

definition slice_from :: "slice \<Rightarrow> int \<Rightarrow> fault + slice" where
  "slice_from s lo =
     (if 0 \<le> lo \<and> lo \<le> len s
      then Inr \<lparr>vis = drop (nat lo) (vis s), spare = spare s\<rparr>
      else Inl SliceBounds)"

text \<open>\<open>s[lo:hi]\<close>: the capacity of the result reaches to the capacity of \<open>s\<close>.\<close>

definition slice2 :: "slice \<Rightarrow> int \<Rightarrow> int \<Rightarrow> fault + slice" where
  "slice2 s lo hi =
     (if 0 \<le> lo \<and> lo \<le> hi \<and> hi \<le> cap s
      then Inr \<lparr>vis = take (nat (hi - lo)) (drop (nat lo) (vis s @ spare s)),
                spare = drop (nat hi) (vis s @ spare s)\<rparr>
      else Inl SliceBounds)"

text \<open>\<open>s[lo:hi:mx]\<close>: the capacity of the result is \<open>mx - lo\<close>.\<close>

definition slice3 :: "slice \<Rightarrow> int \<Rightarrow> int \<Rightarrow> int \<Rightarrow> fault + slice" where
  "slice3 s lo hi mx =
     (if 0 \<le> lo \<and> lo \<le> hi \<and> hi \<le> mx \<and> mx \<le> cap s
      then Inr \<lparr>vis = take (nat (hi - lo)) (drop (nat lo) (vis s @ spare s)),
                spare = take (nat (mx - hi)) (drop (nat hi) (vis s @ spare s))\<rparr>
      else Inl SliceBounds)"

text \<open>\<open>int(v)\<close> for a \<open>uint64\<close>, and \<open>int\<close> addition where it can overflow.\<close>

definition wrapInt :: "int \<Rightarrow> int" where
  "wrapInt x = signed_take_bit 63 x"

text \<open>\<open>string(b)\<close> copies the bytes of the slice below its length.\<close>

definition string_of :: "slice \<Rightarrow> string" where
  "string_of b = map (\<lambda>w. char_of (unat w)) (vis b)"

section \<open>The standard library: \<open>encoding/binary\<close>\<close>

text \<open>
  \<open>binary.Uvarint\<close> is not part of the repository; it is modelled from the Go standard
  library. It returns the value and the number of bytes read; \<open>(0, 0)\<close> when the buffer
  ends inside the number, \<open>(0, -(i + 1))\<close> on a number that does not fit 64 bits. The
  test \<open>i = 10\<close> is that of the current library; older releases go on to the first
  byte below \<open>0x80\<close>. They agree on every buffer in which a varint has at most ten
  bytes, and no buffer below has a longer one.
\<close>

fun uvarint_loop :: "byte list \<Rightarrow> nat \<Rightarrow> nat \<Rightarrow> uint64 \<Rightarrow> uint64 \<times> int" where
  "uvarint_loop [] i s x = (0, 0)"
| "uvarint_loop (b # bs) i s x =
     (if i = 10 then (0, - (int i + 1))
      else if b < 0x80 then
        (if i = 9 \<and> 1 < b then (0, - (int i + 1))
         else (x OR push_bit s (ucast b), int i + 1))
      else uvarint_loop bs (i + 1) (s + 7) (x OR push_bit s (ucast (b AND 0x7f))))"

definition Uvarint :: "slice \<Rightarrow> uint64 \<times> int" where
  "Uvarint buf = uvarint_loop (vis buf) 0 0 0"

text \<open>\<open>binary.LittleEndian.Uint32\<close> and \<open>Uint64\<close> index the last byte first.\<close>

fun le_word :: "byte list \<Rightarrow> uint64" where
  "le_word [] = 0"
| "le_word (b # bs) = ucast b OR push_bit 8 (le_word bs)"

definition Uint32 :: "slice \<Rightarrow> fault + 32 word" where
  "Uint32 b = (if length (vis b) < 4 then Inl IndexRange
               else Inr (ucast (le_word (take 4 (vis b)))))"

definition Uint64 :: "slice \<Rightarrow> fault + uint64" where
  "Uint64 b = (if length (vis b) < 8 then Inl IndexRange
               else Inr (le_word (take 8 (vis b))))"

section \<open>Wire encoding: \<open>readNext\<close>\<close>

definition tagUvarint :: tagClass where "tagUvarint = 0"
definition tag64bit :: tagClass where "tag64bit = 1"
definition tagSequence :: tagClass where "tagSequence = 2"
definition tagStart :: tagClass where "tagStart = 3"
definition tagEnd :: tagClass where "tagEnd = 4"
definition tag32bit :: tagClass where "tag32bit = 5"

type_synonym reading = "uint64 \<times> slice \<times> tagNum \<times> int"

definition readNext :: "slice \<Rightarrow> fault + reading" where
  "readNext data =
     (let (v, pos) = Uvarint data;
          tag = (ucast (drop_bit 3 v) :: tagNum);
          kind = (ucast (v AND 0x07) :: tagClass)
      in if tag = 0 then Inr (ucast kind, nil, tag, pos)
         else let next = pos in
           if kind = tagUvarint then
             (case slice_from data next of
                Inl e \<Rightarrow> Inl e
              | Inr rest \<Rightarrow>
                  (let (v, pos) = Uvarint rest
                   in if pos < 0 then Inr (ucast kind, nil, tag, 0)
                      else Inr (v, nil, tag, next + pos)))
           else if kind = tag32bit then
             (let start = next; next = next + 4
              in case slice2 data start next of
                   Inl e \<Rightarrow> Inl e
                 | Inr b \<Rightarrow>
                     (case Uint32 b of
                        Inl e \<Rightarrow> Inl e
                      | Inr v \<Rightarrow> Inr (ucast v, nil, tag, next)))
           else if kind = tag64bit then
             (let start = next; next = next + 8
              in case slice2 data start next of
                   Inl e \<Rightarrow> Inl e
                 | Inr b \<Rightarrow>
                     (case Uint64 b of
                        Inl e \<Rightarrow> Inl e
                      | Inr v \<Rightarrow> Inr (v, nil, tag, next)))
           else if kind = tagSequence then
             (case slice_from data next of
                Inl e \<Rightarrow> Inl e
              | Inr rest \<Rightarrow>
                  (let (v, pos) = Uvarint rest
                   in if pos = 0 then Inr (ucast kind, nil, tag, 0)
                      else let start = next + pos;
                               next = wrapInt (start + sint v)
                           in case slice3 data start next next of
                                Inl e \<Rightarrow> Inl e
                              | Inr b \<Rightarrow> Inr (0, b, tag, next)))
           else Inr (ucast kind, nil, tag, 0))"

text \<open>The call \<open>readNext(msg[i:])\<close> of the walkers.\<close>

definition readNextAt :: "slice \<Rightarrow> int \<Rightarrow> fault + reading" where
  "readNextAt msg i = (case slice_from msg i of Inl e \<Rightarrow> Inl e | Inr s \<Rightarrow> readNext s)"

section \<open>Descriptors\<close>

record Field =
  Field_Name :: string
  Field_Tag :: tagNum
  Field_Label :: "8 word"
  Field_Type :: "8 word"
  Field_OneOfIndex :: "32 word" \<comment> \<open>\<open>int32\<close>: the 32 bits, read by \<open>sint\<close>\<close>

datatype Message =
  Message (Message_Name: string) (Message_Field: "Field list") (Message_Nested: "Message list")

record File =
  File_Name :: string
  File_Package :: string
  File_Message :: "Message list"
  File_Format :: string

text \<open>The zero values \<open>&Field{}\<close>, \<open>&Message{}\<close> and \<open>&File{}\<close>.\<close>

definition newField :: Field where
  "newField = \<lparr>Field_Name = [], Field_Tag = 0, Field_Label = 0, Field_Type = 0,
                Field_OneOfIndex = 0\<rparr>"

definition newMessage :: Message where
  "newMessage = Message [] [] []"

definition newFile :: File where
  "newFile = \<lparr>File_Name = [], File_Package = [], File_Message = [], File_Format = []\<rparr>"

text \<open>
  A walker either never returns (\<open>None\<close>), panics (\<open>Some (Inl fault)\<close>) or returns the
  entity built so far with an optional \<open>badOffset\<close> (\<open>Some (Inr (entity, err))\<close>).
\<close>

type_synonym badOffset = int
type_synonym 'a parsed = "(fault + 'a \<times> badOffset option) option"

section \<open>\<open>parseField\<close>\<close>

text \<open>The \<open>switch t\<close> of \<open>parseField\<close>.\<close>

definition fieldSwitch :: "Field \<Rightarrow> tagNum \<Rightarrow> uint64 \<Rightarrow> slice \<Rightarrow> Field" where
  "fieldSwitch f t d b =
     (if t = 1 then f\<lparr>Field_Name := string_of b\<rparr>
      else if t = 3 then f\<lparr>Field_Tag := ucast d\<rparr>
      else if t = 4 then f\<lparr>Field_Label := ucast d\<rparr>
      else if t = 5 then f\<lparr>Field_Type := ucast d\<rparr>
      else if t = 9 then f\<lparr>Field_OneOfIndex := ucast d\<rparr>
      else f)"

partial_function (option) parseFieldLoop :: "slice \<Rightarrow> int \<Rightarrow> Field \<Rightarrow> Field parsed" where
  "parseFieldLoop msg i f =
     (if i < len msg then
        (case readNextAt msg i of
           Inl e \<Rightarrow> Some (Inl e)
         | Inr (d, b, t, n) \<Rightarrow>
             if n = 0 then Some (Inr (f, Some i))
             else parseFieldLoop msg (i + n) (fieldSwitch f t d b))
      else Some (Inr (f, None)))"

definition parseField :: "slice \<Rightarrow> Field parsed" where
  "parseField msg = parseFieldLoop msg 0 newField"

section \<open>\<open>parseMessage\<close>\<close>

partial_function (option) parseMessageLoop :: "slice \<Rightarrow> int \<Rightarrow> Message \<Rightarrow> Message parsed" where
  "parseMessageLoop msg i m =
     (if i < len msg then
        (case readNextAt msg i of
           Inl e \<Rightarrow> Some (Inl e)
         | Inr (d, b, t, n) \<Rightarrow>
             if n = 0 then Some (Inr (m, Some i))
             else if t = 1 then
               parseMessageLoop msg (i + n)
                 (Message (string_of b) (Message_Field m) (Message_Nested m))
             else if t = 2 then
               Option.bind (parseField b) (\<lambda>r.
                 case r of
                   Inl e \<Rightarrow> Some (Inl e)
                 | Inr (f, Some err) \<Rightarrow> Some (Inr (m, Some (i + err)))
                 | Inr (f, None) \<Rightarrow>
                     parseMessageLoop msg (i + n)
                       (Message (Message_Name m) (Message_Field m @ [f]) (Message_Nested m)))
             else if t = 4 then
               Option.bind (parseMessageLoop b 0 newMessage) (\<lambda>r.
                 case r of
                   Inl e \<Rightarrow> Some (Inl e)
                 | Inr (nm, Some err) \<Rightarrow> Some (Inr (m, Some (i + err)))
                 | Inr (nm, None) \<Rightarrow>
                     parseMessageLoop msg (i + n)
                       (Message (Message_Name m) (Message_Field m) (Message_Nested m @ [nm])))
             else parseMessageLoop msg (i + n) m)
      else Some (Inr (m, None)))"

definition parseMessage :: "slice \<Rightarrow> Message parsed" where
  "parseMessage msg = parseMessageLoop msg 0 newMessage"

section \<open>\<open>parseFile\<close>\<close>

partial_function (option) parseFileLoop :: "slice \<Rightarrow> int \<Rightarrow> File \<Rightarrow> File parsed" where
  "parseFileLoop msg i f =
     (if i < len msg then
        (case readNextAt msg i of
           Inl e \<Rightarrow> Some (Inl e)
         | Inr (d, b, t, n) \<Rightarrow>
             if n = 0 then Some (Inr (f, Some i))
             else if t = 1 then parseFileLoop msg (i + n) (f\<lparr>File_Name := string_of b\<rparr>)
             else if t = 2 then parseFileLoop msg (i + n) (f\<lparr>File_Package := string_of b\<rparr>)
             else if t = 4 then
               Option.bind (parseMessage b) (\<lambda>r.
                 case r of
                   Inl e \<Rightarrow> Some (Inl e)
                 | Inr (m, Some err) \<Rightarrow> Some (Inr (f, Some (i + err)))
                 | Inr (m, None) \<Rightarrow>
                     parseFileLoop msg (i + n) (f\<lparr>File_Message := File_Message f @ [m]\<rparr>))
             else if t = 12 then parseFileLoop msg (i + n) (f\<lparr>File_Format := string_of b\<rparr>)
             else parseFileLoop msg (i + n) f)
      else Some (Inr (f, None)))"

definition parseFile :: "slice \<Rightarrow> File parsed" where
  "parseFile msg = parseFileLoop msg 0 newFile"

section \<open>\<open>parseDescriptor\<close>\<close>

partial_function (option) parseDescriptorLoop ::
    "slice \<Rightarrow> int \<Rightarrow> File list \<Rightarrow> (File list) parsed" where
  "parseDescriptorLoop msg i files =
     (if i < len msg then
        (case readNextAt msg i of
           Inl e \<Rightarrow> Some (Inl e)
         | Inr (d, b, t, n) \<Rightarrow>
             if n = 0 then Some (Inr (files, Some i))
             else if t = 1 then
               Option.bind (parseFile b) (\<lambda>r.
                 case r of
                   Inl e \<Rightarrow> Some (Inl e)
                 | Inr (f, Some err) \<Rightarrow> Some (Inr (files, Some (i + err)))
                 | Inr (f, None) \<Rightarrow> parseDescriptorLoop msg (i + n) (files @ [f]))
             else parseDescriptorLoop msg (i + n) files)
      else Some (Inr (files, None)))"

definition parseDescriptor :: "slice \<Rightarrow> (File list) parsed" where
  "parseDescriptor msg = parseDescriptorLoop msg 0 []"

text \<open>A byte literal \<open>[]byte{...}\<close>: the capacity is the length.\<close>

definition bytes :: "byte list \<Rightarrow> slice" where
  "bytes bs = \<lparr>vis = bs, spare = []\<rparr>"

section \<open>Well-formed entries\<close>

text \<open>
  The encoder of the wire format is not part of the repository either. \<open>putUvarint\<close> is
  \<open>binary.PutUvarint\<close> of the Go standard library; a header is the varint of
  \<open>tag << 3 | kind\<close>.
\<close>

definition headerValue :: "tagNum \<Rightarrow> tagClass \<Rightarrow> uint64" where
  "headerValue t k = push_bit 3 (ucast t) OR ucast k"

function putUvarint :: "uint64 \<Rightarrow> byte list" where
  "putUvarint x =
     (if 0x80 \<le> x then (ucast x OR 0x80) # putUvarint (drop_bit 7 x) else [ucast x])"
  by pat_completeness auto
termination
proof (relation "measure unat")
  show "wf (measure unat)" by simp
next
  fix x :: uint64
  assume "0x80 \<le> x"
  then have "128 \<le> unat x" by (simp add: word_le_nat_alt)
  then have "unat x div 2 ^ 7 < unat x" by simp
  moreover have "unat (drop_bit 7 x) = unat x div 2 ^ 7"
    by (simp add: drop_bit_eq_div unat_div)
  ultimately show "(drop_bit 7 x, x) \<in> measure unat"
    by (simp only: in_measure)
qed

declare putUvarint.simps [simp del]

definition header :: "tagNum \<Rightarrow> tagClass \<Rightarrow> byte list" where
  "header t k = putUvarint (headerValue t k)"

text \<open>
  An item is a byte string together with what \<open>readNext\<close> returns for it. It is an
  entry when \<open>readNext\<close> consumes exactly these bytes and returns these values, whatever
  follows them in the buffer and in its backing array.
\<close>

type_synonym item = "byte list \<times> uint64 \<times> slice \<times> tagNum"

definition entry :: "item \<Rightarrow> bool" where
  "entry it =
     (case it of (e, d, b, t) \<Rightarrow>
        e \<noteq> [] \<and>
        (\<forall>rest sp. readNext \<lparr>vis = e @ rest, spare = sp\<rparr> = Inr (d, b, t, int (length e))))"

definition wire :: "item list \<Rightarrow> byte list" where
  "wire es = concat (map fst es)"

definition tagOf :: "item \<Rightarrow> tagNum" where
  "tagOf it = (case it of (e, d, b, t) \<Rightarrow> t)"

section \<open>The walkers as functions of the entries\<close>

text \<open>
  What each walker computes from the entries of its slice, in the order of the slice:
  the \<open>switch t\<close> of the walker applied to one entry after the other. The result is
  \<open>None\<close> when the parse of a nested payload does not return without error.
\<close>

fun fieldRun :: "Field \<Rightarrow> item list \<Rightarrow> Field" where
  "fieldRun f [] = f"
| "fieldRun f ((e, d, b, t) # es) = fieldRun (fieldSwitch f t d b) es"

fun messageRun :: "Message \<Rightarrow> item list \<Rightarrow> Message option" where
  "messageRun m [] = Some m"
| "messageRun m ((e, d, b, t) # es) =
     (if t = 1 then messageRun (Message (string_of b) (Message_Field m) (Message_Nested m)) es
      else if t = 2 then
        (case parseField b of
           Some (Inr (f, None)) \<Rightarrow>
             messageRun (Message (Message_Name m) (Message_Field m @ [f]) (Message_Nested m)) es
         | _ \<Rightarrow> None)
      else if t = 4 then
        (case parseMessage b of
           Some (Inr (nm, None)) \<Rightarrow>
             messageRun (Message (Message_Name m) (Message_Field m) (Message_Nested m @ [nm])) es
         | _ \<Rightarrow> None)
      else messageRun m es)"

fun fileRun :: "File \<Rightarrow> item list \<Rightarrow> File option" where
  "fileRun f [] = Some f"
| "fileRun f ((e, d, b, t) # es) =
     (if t = 1 then fileRun (f\<lparr>File_Name := string_of b\<rparr>) es
      else if t = 2 then fileRun (f\<lparr>File_Package := string_of b\<rparr>) es
      else if t = 4 then
        (case parseMessage b of
           Some (Inr (m, None)) \<Rightarrow> fileRun (f\<lparr>File_Message := File_Message f @ [m]\<rparr>) es
         | _ \<Rightarrow> None)
      else if t = 12 then fileRun (f\<lparr>File_Format := string_of b\<rparr>) es
      else fileRun f es)"

fun setRun :: "File list \<Rightarrow> item list \<Rightarrow> File list option" where
  "setRun files [] = Some files"
| "setRun files ((e, d, b, t) # es) =
     (if t = 1 then
        (case parseFile b of
           Some (Inr (f, None)) \<Rightarrow> setRun (files @ [f]) es
         | _ \<Rightarrow> None)
      else setRun files es)"

section \<open>Inserting an unknown entry\<close>

text \<open>
  \<open>insField xs ys\<close>: the Field payload \<open>ys\<close> is \<open>xs\<close> with one more entry, whose tag
  number \<open>parseField\<close> does not know, between two of its entries. For a Message, a File
  and the top-level buffer the new entry is either added at this level, or inside the
  payload of a nested entity, whose own entry is then written again (with the new
  length).
\<close>

inductive insField :: "byte list \<Rightarrow> byte list \<Rightarrow> bool" where
  insField_here:
    "list_all entry (es1 @ u # es2) \<Longrightarrow> tagOf u \<notin> {1, 3, 4, 5, 9} \<Longrightarrow>
     insField (wire (es1 @ es2)) (wire (es1 @ u # es2))"

inductive insMessage :: "byte list \<Rightarrow> byte list \<Rightarrow> bool" where
  insMessage_here:
    "list_all entry (es1 @ u # es2) \<Longrightarrow> tagOf u \<notin> {1, 2, 4} \<Longrightarrow>
     insMessage (wire (es1 @ es2)) (wire (es1 @ u # es2))"
| insMessage_field:
    "list_all entry (es1 @ es2) \<Longrightarrow> entry (e, d, b, 2) \<Longrightarrow> entry (e', d', b', 2) \<Longrightarrow>
     insField (vis b) (vis b') \<Longrightarrow>
     insMessage (wire (es1 @ (e, d, b, 2) # es2)) (wire (es1 @ (e', d', b', 2) # es2))"
| insMessage_nested:
    "list_all entry (es1 @ es2) \<Longrightarrow> entry (e, d, b, 4) \<Longrightarrow> entry (e', d', b', 4) \<Longrightarrow>
     insMessage (vis b) (vis b') \<Longrightarrow>
     insMessage (wire (es1 @ (e, d, b, 4) # es2)) (wire (es1 @ (e', d', b', 4) # es2))"

inductive insFile :: "byte list \<Rightarrow> byte list \<Rightarrow> bool" where
  insFile_here:
    "list_all entry (es1 @ u # es2) \<Longrightarrow> tagOf u \<notin> {1, 2, 4, 12} \<Longrightarrow>
     insFile (wire (es1 @ es2)) (wire (es1 @ u # es2))"
| insFile_message:
    "list_all entry (es1 @ es2) \<Longrightarrow> entry (e, d, b, 4) \<Longrightarrow> entry (e', d', b', 4) \<Longrightarrow>
     insMessage (vis b) (vis b') \<Longrightarrow>
     insFile (wire (es1 @ (e, d, b, 4) # es2)) (wire (es1 @ (e', d', b', 4) # es2))"

inductive insSet :: "byte list \<Rightarrow> byte list \<Rightarrow> bool" where
  insSet_here:
    "list_all entry (es1 @ u # es2) \<Longrightarrow> tagOf u \<noteq> 1 \<Longrightarrow>
     insSet (wire (es1 @ es2)) (wire (es1 @ u # es2))"
| insSet_file:
    "list_all entry (es1 @ es2) \<Longrightarrow> entry (e, d, b, 1) \<Longrightarrow> entry (e', d', b', 1) \<Longrightarrow>
     insFile (vis b) (vis b') \<Longrightarrow>
     insSet (wire (es1 @ (e, d, b, 1) # es2)) (wire (es1 @ (e', d', b', 1) # es2))"

section \<open>Entities decoded without error\<close>

definition fileOk :: "File \<Rightarrow> bool" where
  "fileOk f = (\<exists>b. parseFile b = Some (Inr (f, None)))"

definition messageOk :: "Message \<Rightarrow> bool" where
  "messageOk m = (\<exists>b. parseMessage b = Some (Inr (m, None)))"

definition fieldOk :: "Field \<Rightarrow> bool" where
  "fieldOk f = (\<exists>b. parseField b = Some (Inr (f, None)))"

definition messageInv :: "Message \<Rightarrow> bool" where
  "messageInv m = (list_all fieldOk (Message_Field m) \<and> list_all messageOk (Message_Nested m))"

text \<open>
  The payloads of the Field entries (tag number 2), and of the Message entries (tag
  number 4), of a list of entries are all decoded without error.
\<close>

definition fieldsDecode :: "item list \<Rightarrow> bool" where
  "fieldsDecode es =
     (\<forall>(e, d, b, t) \<in> set es. t = 2 \<longrightarrow> (\<exists>f. parseField b = Some (Inr (f, None))))"

definition messagesDecode :: "item list \<Rightarrow> bool" where
  "messagesDecode es =
     (\<forall>(e, d, b, t) \<in> set es. t = 4 \<longrightarrow> (\<exists>m. parseMessage b = Some (Inr (m, None))))"

section \<open>Concrete buffers\<close>

text \<open>
  Scenario A: one File entry (tag 1, length-delimited) wrapping a Message entry (tag 4)
  with name \<open>Point\<close> and two Field entries (tag 2), \<open>x\<close> with tag number 1 and \<open>y\<close>
  with tag number 2.
\<close>

definition scenarioA :: "byte list" where
  "scenarioA =
     [0x0a, 23,
        0x22, 21,
          0x0a, 5, 0x50, 0x6f, 0x69, 0x6e, 0x74,
          0x12, 5, 0x0a, 1, 0x78, 0x18, 1,
          0x12, 5, 0x0a, 1, 0x79, 0x18, 2]"

text \<open>
  Ten headers with tag number 0, followed by a header varint of ten bytes whose last byte
  is greater than 1 (it does not fit 64 bits).
\<close>

definition loopInput :: "byte list" where
  "loopInput = [0, 0, 0, 0, 0, 0, 0, 0, 0, 0,
                0xff, 0xff, 0xff, 0xff, 0xff, 0xff, 0xff, 0xff, 0xff, 0x02]"

text \<open>
  A File with one Message with one Field whose tag number is written twice (5, then 7),
  as a top-level buffer, and the payload of that Field.
\<close>

definition twoTags :: "byte list" where
  "twoTags = [0x0a, 8, 0x22, 6, 0x12, 4, 0x18, 5, 0x18, 7]"

definition twoTagsField :: "byte list" where
  "twoTagsField = [0x18, 5, 0x18, 7]"

text \<open>
  Scenario B: scenario A with one more entry, tag number 7 with a varint value, at the
  end of the Message. \<open>pointA\<close> and \<open>pointB\<close> are the payloads of the two Messages,
  \<open>fieldX\<close> and \<open>fieldY\<close> the payloads of the Fields.
\<close>

definition fieldX :: "byte list" where
  "fieldX = [0x0a, 1, 0x78, 0x18, 1]"

definition fieldY :: "byte list" where
  "fieldY = [0x0a, 1, 0x79, 0x18, 2]"

definition pointA :: "byte list" where
  "pointA = [0x0a, 5, 0x50, 0x6f, 0x69, 0x6e, 0x74] @ [0x12, 5] @ fieldX @ [0x12, 5] @ fieldY"

definition pointB :: "byte list" where
  "pointB = pointA @ [0x38, 1]"

definition scenarioB :: "byte list" where
  "scenarioB = [0x0a, 25, 0x22, 23] @ pointB"

text \<open>
  The entries of a Message payload that writes the name twice (\<open>a\<close>, then \<open>b\<close>), with
  an empty Field and an empty nested Message between; and of a File payload that writes
  name, package and format twice (\<open>a\<close>, \<open>p\<close>, \<open>f\<close>, then \<open>b\<close>, \<open>q\<close>, \<open>g\<close>), with an
  empty Message between.
\<close>

definition namedTwice :: "item list" where
  "namedTwice =
     [([0x0a, 1, 0x61], 0, bytes [0x61], 1),
      ([0x12, 0], 0, bytes [], 2),
      ([0x22, 0], 0, bytes [], 4),
      ([0x0a, 1, 0x62], 0, bytes [0x62], 1)]"

definition twoOfEach :: "item list" where
  "twoOfEach =
     [([0x0a, 1, 0x61], 0, bytes [0x61], 1),
      ([0x12, 1, 0x70], 0, bytes [0x70], 2),
      ([0x62, 1, 0x66], 0, bytes [0x66], 12),
      ([0x22, 0], 0, bytes [], 4),
      ([0x0a, 1, 0x62], 0, bytes [0x62], 1),
      ([0x12, 1, 0x71], 0, bytes [0x71], 2),
      ([0x62, 1, 0x67], 0, bytes [0x67], 12)]"

section \<open>Evaluation\<close>

declare parseFieldLoop.simps [code] parseMessageLoop.simps [code]
  parseFileLoop.simps [code] parseDescriptorLoop.simps [code]

lemmas wire_defs = readNextAt_def readNext_def Uvarint_def slice_from_def slice2_def slice3_def len_def cap_def
  wrapInt_def tag32bit_def tagUvarint_def tag64bit_def tagSequence_def Uint32_def Uint64_def
  nil_def bytes_def

lemmas walker_defs = parseDescriptor_def parseFile_def parseMessage_def parseField_def
  parseDescriptorLoop.simps parseFileLoop.simps parseMessageLoop.simps parseFieldLoop.simps
  fieldSwitch_def newFile_def newMessage_def newField_def string_of_def char_of_def

section \<open>Scenario A and the empty input\<close>

text \<open>
  C7: on the buffer of scenario A, \<open>parseDescriptor\<close> returns without error exactly one
  File, holding exactly one Message named \<open>Point\<close>, whose Fields are \<open>x\<close> then \<open>y\<close>.
\<close>

theorem scenario_A_decodes:
  "parseDescriptor (bytes scenarioA) =
     Some (Inr ([\<lparr>File_Name = [], File_Package = [],
                  File_Message =
                    [Message ''Point''
                       [\<lparr>Field_Name = ''x'', Field_Tag = 1, Field_Label = 0, Field_Type = 0,
                          Field_OneOfIndex = 0\<rparr>,
                        \<lparr>Field_Name = ''y'', Field_Tag = 2, Field_Label = 0, Field_Type = 0,
                          Field_OneOfIndex = 0\<rparr>]
                       []],
                  File_Format = []\<rparr>], None))"
  by code_simp

text \<open>
  C9: on a slice of length zero (whatever its capacity) every parse routine returns
  without error: \<open>parseDescriptor\<close> no File at all, the others a fresh entity whose
  attributes all have their zero value.
\<close>

theorem empty_input_succeeds:
  "parseDescriptor \<lparr>vis = [], spare = sp\<rparr> = Some (Inr ([], None)) \<and>
   parseFile \<lparr>vis = [], spare = sp\<rparr> =
     Some (Inr (\<lparr>File_Name = [], File_Package = [], File_Message = [], File_Format = []\<rparr>,
                None)) \<and>
   parseMessage \<lparr>vis = [], spare = sp\<rparr> = Some (Inr (Message [] [] [], None)) \<and>
   parseField \<lparr>vis = [], spare = sp\<rparr> =
     Some (Inr (\<lparr>Field_Name = [], Field_Tag = 0, Field_Label = 0, Field_Type = 0,
                 Field_OneOfIndex = 0\<rparr>, None))"
  by (simp add: walker_defs len_def)

section \<open>Where the code leaves its own conventions\<close>

text \<open>
  C1: the offset reported for a failure inside a nested payload is not the position of the
  malformed byte. In the first buffer the second File entry starts at offset 2 and its
  payload at offset 4; the payload fails at its local offset 2, that is at byte 6 of the
  buffer, and \<open>parseDescriptor\<close> reports 4: the caller adds the offset of the entry, not
  the offset at which the payload begins. In the second buffer the malformed byte is at
  offset 6, three payloads deep, and the reported offset is 0.
\<close>

theorem failure_offset_misses_headers:
  "parseDescriptor (bytes [0x0a, 0x00, 0x0a, 0x03, 0x0a, 0x00, 0x80]) =
     Some (Inr ([newFile], Some 4)) \<and>
   parseFile (bytes [0x0a, 0x00, 0x80]) = Some (Inr (newFile, Some 2)) \<and>
   parseDescriptor (bytes [0x0a, 5, 0x22, 3, 0x22, 1, 0x80]) = Some (Inr ([], Some 0))"
  by (simp add: wire_defs walker_defs)

text \<open>
  C3: a fixed-width value or a length-delimited payload that the buffer does not hold is
  never reported as a failure result. When the slice has no capacity left \<open>readNext\<close>
  panics on the slice expression, and so does \<open>parseDescriptor\<close>; a declared length of
  \<open>2^64 - 1\<close> panics whatever the capacity; and when the backing array has spare capacity
  the bytes beyond the end of the slice are read as the value.
\<close>

theorem readNext_short_value_panics:
  "readNext (bytes [0x0d, 1, 2, 3]) = Inl SliceBounds \<and>
   readNext (bytes [0x09, 1, 2, 3, 4, 5, 6, 7]) = Inl SliceBounds \<and>
   readNext (bytes [0x0a, 3, 1, 2]) = Inl SliceBounds \<and>
   readNext \<lparr>vis = [0x0a, 0xff, 0xff, 0xff, 0xff, 0xff, 0xff, 0xff, 0xff, 0xff, 0x01],
             spare = sp\<rparr> = Inl SliceBounds \<and>
   parseDescriptor (bytes [0x0d, 1, 2, 3]) = Some (Inl SliceBounds) \<and>
   readNext \<lparr>vis = [0x0d, 1], spare = [2, 3, 4, 9]\<rparr> = Inr (0x04030201, nil, 1, 5)"
  by (simp add: wire_defs walker_defs)

text \<open>
  C4: a header with tag number 0 is reported with the number of bytes of the header (1
  here), not with 0, and the walker skips it like an unknown field: the File entry that
  follows it is decoded and no error is returned.
\<close>

theorem tag_zero_header_is_skipped:
  "readNext (bytes [0x02, 0x0a, 0x00]) = Inr (2, nil, 0, 1) \<and>
   parseDescriptor (bytes [0x02, 0x0a, 0x00]) = Some (Inr ([newFile], None))"
  by (simp add: wire_defs walker_defs)

text \<open>
  C5: a varint value that the buffer no longer holds is decoded as 0 without error. The
  payload of the Field writes the tag number 5, then 7; cut behind the second header,
  \<open>parseField\<close> returns the tag number 0 and no error. The top-level buffer cut at the same byte panics
  when its capacity is its length, and decodes the tag number 0 without error when the
  backing array goes on with zero bytes.
\<close>

theorem truncated_varint_is_decoded:
  "parseField (bytes twoTagsField) = Some (Inr (newField\<lparr>Field_Tag := 7\<rparr>, None)) \<and>
   parseField (bytes (take 2 twoTagsField)) = Some (Inr (newField\<lparr>Field_Tag := 5\<rparr>, None)) \<and>
   parseField (bytes (take 3 twoTagsField)) = Some (Inr (newField\<lparr>Field_Tag := 0\<rparr>, None)) \<and>
   parseDescriptor (bytes twoTags) =
     Some (Inr ([newFile\<lparr>File_Message := [Message [] [newField\<lparr>Field_Tag := 7\<rparr>] []]\<rparr>],
                None)) \<and>
   parseDescriptor (bytes (take 9 twoTags)) = Some (Inl SliceBounds) \<and>
   parseDescriptor \<lparr>vis = take 9 twoTags, spare = [0, 0, 0]\<rparr> =
     Some (Inr ([newFile\<lparr>File_Message := [Message [] [newField\<lparr>Field_Tag := 0\<rparr>] []]\<rparr>],
                None))"
  by (simp add: twoTags_def twoTagsField_def wire_defs walker_defs)

section \<open>A buffer on which the scan does not end\<close>

lemma readNext_loopInput_skip:
  "n < 10 \<Longrightarrow> readNext \<lparr>vis = drop n loopInput, spare = []\<rparr> = Inr (0, nil, 0, 1)"
  unfolding loopInput_def
  by (auto simp: less_Suc_eq eval_nat_numeral) (simp_all add: wire_defs)

lemma readNext_loopInput_back:
  "readNext \<lparr>vis = drop 10 loopInput, spare = []\<rparr> = Inr (0, nil, 0, -10)"
  by (simp add: loopInput_def wire_defs)

text \<open>
  No call of the loop with the cursor between 0 and 10 returns: the first ten steps move
  the cursor forward by 1, the eleventh moves it back by 10.
\<close>

lemma loopInput_no_return:
  assumes "parseDescriptorLoop msg i files = Some y"
  shows "\<not> (msg = \<lparr>vis = loopInput, spare = []\<rparr> \<and> 0 \<le> i \<and> i \<le> 10)"
proof (rule parseDescriptorLoop.raw_induct
    [where P = "\<lambda>msg i files y. \<not> (msg = \<lparr>vis = loopInput, spare = []\<rparr> \<and> 0 \<le> i \<and> i \<le> 10)",
      OF _ assms])
  fix f :: "slice \<Rightarrow> int \<Rightarrow> File list \<Rightarrow> (File list) parsed"
    and msg i files y
  assume IH: "\<And>msg i files y. f msg i files = Some y \<Longrightarrow>
                \<not> (msg = \<lparr>vis = loopInput, spare = []\<rparr> \<and> 0 \<le> i \<and> i \<le> 10)"
    and body: "(if i < len msg then
        (case readNextAt msg i of
           Inl e \<Rightarrow> Some (Inl e)
         | Inr (d, b, t, n) \<Rightarrow>
             if n = 0 then Some (Inr (files, Some i))
             else if t = 1 then
               Option.bind (parseFile b) (\<lambda>r.
                 case r of
                   Inl e \<Rightarrow> Some (Inl e)
                 | Inr (f', Some err) \<Rightarrow> Some (Inr (files, Some (i + err)))
                 | Inr (f', None) \<Rightarrow> f msg (i + n) (files @ [f']))
             else f msg (i + n) files)
      else Some (Inr (files, None))) = Some y"
  show "\<not> (msg = \<lparr>vis = loopInput, spare = []\<rparr> \<and> 0 \<le> i \<and> i \<le> 10)"
  proof
    assume a: "msg = \<lparr>vis = loopInput, spare = []\<rparr> \<and> 0 \<le> i \<and> i \<le> 10"
    then have m: "msg = \<lparr>vis = loopInput, spare = []\<rparr>" by simp
    have l: "len msg = 20" by (simp add: m len_def loopInput_def)
    from a consider "nat i < 10" | "i = 10" by linarith
    then show False
    proof cases
      case 1
      have "i < 20" "0 \<le> i" using a by auto
      then have "f msg (i + 1) files = Some y"
        using body l readNext_loopInput_skip [OF 1]
        by (simp add: readNextAt_def slice_from_def m)
      moreover have "0 \<le> i + 1 \<and> i + 1 \<le> 10" using 1 a by linarith
      ultimately show False using IH a by blast
    next
      case 2
      then have "f msg 0 files = Some y"
        using body l readNext_loopInput_back
        by (simp add: readNextAt_def slice_from_def m)
      then show False using IH a by force
    qed
  qed
qed

text \<open>
  C2: \<open>parseDescriptor\<close> does not return on \<open>loopInput\<close>: a header varint that overflows
  64 bits makes \<open>readNext\<close> report a negative count, which the walker adds to its cursor.
  On the overflowing header alone the cursor becomes negative and the next slice
  expression panics.
\<close>

theorem parseDescriptor_loops_forever:
  "parseDescriptor (bytes loopInput) = None \<and>
   readNext (bytes (drop 10 loopInput)) = Inr (0, nil, 0, -10) \<and>
   parseDescriptor (bytes (drop 10 loopInput)) = Some (Inl SliceBounds)"
proof -
  have "parseDescriptor (bytes loopInput) = None"
  proof (cases "parseDescriptor (bytes loopInput)")
    case None
    then show ?thesis .
  next
    case (Some y)
    then show ?thesis
      using loopInput_no_return [of "bytes loopInput" 0 "[]" y]
      by (simp add: parseDescriptor_def bytes_def)
  qed
  moreover have "readNext (bytes (drop 10 loopInput)) = Inr (0, nil, 0, -10)"
    by (simp add: loopInput_def wire_defs)
  moreover have "parseDescriptor (bytes (drop 10 loopInput)) = Some (Inl SliceBounds)"
    by (simp add: loopInput_def wire_defs walker_defs)
  ultimately show ?thesis by simp
qed

section \<open>The encodings of the wire format are entries\<close>

text \<open>
  \<open>Uvarint\<close> reads back what \<open>putUvarint\<close> writes, in at most ten bytes, whatever
  follows in the buffer.
\<close>

lemma unat_drop7: "unat (drop_bit 7 (x :: uint64)) = unat x div 2 ^ 7"
  by (simp add: drop_bit_eq_div unat_div)

lemma byte_ge: "\<not> (ucast (x :: uint64) OR 0x80 :: byte) < 0x80"
proof -
  have "(0x80 :: byte) \<le> ucast x OR 0x80" by (simp add: le_word_or1)
  then show ?thesis by simp
qed

lemma bit_0x80: "bit (0x80 :: byte) n \<longleftrightarrow> n = 7"
proof -
  have "(0x80 :: byte) = 2 ^ 7" by simp
  then have "bit (0x80 :: byte) n \<longleftrightarrow> bit (2 ^ 7 :: byte) n" by (simp only:)
  also have "\<dots> \<longleftrightarrow> n = 7" by (simp only: bit_exp_iff) auto
  finally show ?thesis .
qed

lemma bit_0x7f: "bit (0x7f :: byte) n \<longleftrightarrow> n < 7"
proof -
  have "(0x7f :: byte) = mask 7" by (simp add: mask_eq_exp_minus_1)
  then have "bit (0x7f :: byte) n \<longleftrightarrow> bit (mask 7 :: byte) n" by (simp only:)
  also have "\<dots> \<longleftrightarrow> n < 7" by (simp only: bit_mask_iff) auto
  finally show ?thesis .
qed

lemma low7: "(ucast ((ucast (x :: uint64) OR 0x80 :: byte) AND 0x7f) :: uint64) = take_bit 7 x"
proof (rule bit_word_eqI)
  fix n
  assume "n < LENGTH(64)"
  then have n: "n < 64" by simp
  have "bit (ucast ((ucast x OR 0x80 :: byte) AND 0x7f) :: uint64) n \<longleftrightarrow>
        n < 8 \<and> (n < 8 \<and> bit x n \<or> bit (0x80 :: byte) n) \<and> bit (0x7f :: byte) n"
    using n by (simp only: bit_ucast_iff bit_and_iff bit_or_iff) auto
  also have "\<dots> \<longleftrightarrow> n < 7 \<and> bit x n"
    by (simp only: bit_0x80 bit_0x7f) auto
  also have "\<dots> \<longleftrightarrow> bit (take_bit 7 x) n"
    by (simp only: bit_take_bit_iff)
  finally show "bit (ucast ((ucast x OR 0x80 :: byte) AND 0x7f) :: uint64) n = bit (take_bit 7 x) n" .
qed

lemma split7: "take_bit 7 (x :: uint64) OR push_bit 7 (drop_bit 7 x) = x"
proof (rule bit_word_eqI)
  fix n
  assume "n < LENGTH(64)"
  then have n: "n < 64" by simp
  show "bit (take_bit 7 x OR push_bit 7 (drop_bit 7 x)) n = bit x n"
  proof (cases "n < 7")
    case True
    then show ?thesis
      by (simp add: bit_or_iff bit_take_bit_iff bit_push_bit_iff)
  next
    case False
    then have "7 + (n - 7) = n" by simp
    then show ?thesis
      using False n by (simp add: bit_or_iff bit_take_bit_iff bit_push_bit_iff bit_drop_bit_eq)
  qed
qed

lemma join7: "push_bit s (take_bit 7 (x :: uint64)) OR push_bit (s + 7) (drop_bit 7 x) = push_bit s x"
proof -
  have "push_bit s x = push_bit s (take_bit 7 x OR push_bit 7 (drop_bit 7 x))"
    by (simp only: split7)
  also have "\<dots> = push_bit s (take_bit 7 x) OR push_bit (s + 7) (drop_bit 7 x)"
    by (simp only: push_bit_or push_bit_push_bit)
  finally show ?thesis by simp
qed

lemma unat_low_byte:
  assumes "unat (x :: uint64) < 256"
  shows "unat (ucast x :: byte) = unat x"
  using assms by (simp add: unsigned_ucast_eq take_bit_nat_eq_self)

lemma ucast_low_byte:
  assumes "unat (x :: uint64) < 256"
  shows "(ucast (ucast x :: byte) :: uint64) = x"
proof -
  have "unat (ucast (ucast x :: byte) :: uint64) = unat x"
    using assms by (simp add: unsigned_ucast_eq unsigned_take_bit_eq take_bit_nat_eq_self)
  then show ?thesis by (simp only: word_unat_eq_iff)
qed

lemma uvarint_loop_put:
  assumes "i \<le> 9" and "unat x < 2 ^ (64 - 7 * i)"
  shows "uvarint_loop (putUvarint x @ rest) i (7 * i) acc =
         (acc OR push_bit (7 * i) x, int i + int (length (putUvarint x)))"
  using assms
proof (induction x arbitrary: i acc rule: putUvarint.induct)
  case (1 x)
  show ?case
  proof (cases "0x80 \<le> x")
    case True
    then have big: "128 \<le> unat x" by (simp add: word_le_nat_alt)
    have i8: "i \<le> 8"
    proof (rule ccontr)
      assume "\<not> i \<le> 8"
      then have "i = 9" using "1.prems"(1) by simp
      then show False using "1.prems"(2) big by simp
    qed
    have "64 - 7 * i = 7 + (64 - 7 * Suc i)" using i8 by simp
    then have "(2::nat) ^ (64 - 7 * i) = 2 ^ (64 - 7 * Suc i) * 2 ^ 7"
      by (simp only: power_add mult.commute)
    then have "unat x < 2 ^ (64 - 7 * Suc i) * 2 ^ 7" using "1.prems"(2) by simp
    then have "unat x div 2 ^ 7 < 2 ^ (64 - 7 * Suc i)" by (rule less_mult_imp_div_less)
    then have small: "unat (drop_bit 7 x) < 2 ^ (64 - 7 * Suc i)" by (simp only: unat_drop7)
    have IH: "uvarint_loop (putUvarint (drop_bit 7 x) @ rest) (Suc i) (7 * Suc i)
        (acc OR push_bit (7 * i) (take_bit 7 x)) =
        ((acc OR push_bit (7 * i) (take_bit 7 x)) OR push_bit (7 * Suc i) (drop_bit 7 x),
          int (Suc i) + int (length (putUvarint (drop_bit 7 x))))"
      using "1.IH" [OF True, of "Suc i"] i8 small by simp
    have "putUvarint x = (ucast x OR 0x80) # putUvarint (drop_bit 7 x)"
      using True by (subst putUvarint.simps) simp
    then show ?thesis
      using IH i8 join7 [of "7 * i" x]
      by (simp add: byte_ge low7 or.assoc add.commute)
  next
    case False
    then have lt: "x < 0x80" by simp
    then have u: "unat x < 128" by (simp add: word_less_nat_alt)
    have p: "putUvarint x = [ucast x]" using False by (subst putUvarint.simps) simp
    have b: "(ucast x :: byte) < 0x80"
      using u unat_low_byte [of x] by (simp add: word_less_nat_alt)
    have r: "(ucast (ucast x :: byte) :: uint64) = x"
      using u by (intro ucast_low_byte) simp
    have nine: "\<not> (i = 9 \<and> 1 < (ucast x :: byte))"
    proof
      assume a: "i = 9 \<and> 1 < (ucast x :: byte)"
      then have "unat x < 2" using "1.prems"(2) by simp
      then have "unat (ucast x :: byte) < 2" using unat_low_byte [of x] by simp
      then show False using a by (simp add: word_less_nat_alt)
    qed
    show ?thesis using "1.prems"(1) b r nine by (simp add: p)
  qed
qed


lemma Uvarint_put:
  "Uvarint \<lparr>vis = putUvarint x @ rest, spare = sp\<rparr> = (x, int (length (putUvarint x)))"
proof -
  have "unat x < 2 ^ 64" using unsigned_less [of x] by simp
  then show ?thesis
    using uvarint_loop_put [of 0 x rest 0] by (simp add: Uvarint_def)
qed

lemma putUvarint_nonempty: "putUvarint x \<noteq> []"
  by (subst putUvarint.simps) simp

lemma putUvarint_length:
  assumes "unat x < 2 ^ (7 * n)" and "1 \<le> n"
  shows "length (putUvarint x) \<le> n"
  using assms
proof (induction x arbitrary: n rule: putUvarint.induct)
  case (1 x)
  show ?case
  proof (cases "0x80 \<le> x")
    case False
    then have "putUvarint x = [ucast x]" by (subst putUvarint.simps) simp
    then show ?thesis using "1.prems"(2) by simp
  next
    case True
    then have big: "2 ^ 7 \<le> unat x" by (simp add: word_le_nat_alt)
    have "n \<noteq> 1" using big "1.prems"(1) by auto
    then obtain k where n: "n = Suc k" and k: "1 \<le> k" using "1.prems"(2) by (cases n) auto
    have "unat x < 2 ^ (7 * k) * 2 ^ 7"
      using "1.prems"(1) by (simp add: n power_add mult.commute)
    then have "unat x div 2 ^ 7 < 2 ^ (7 * k)" by (rule less_mult_imp_div_less)
    then have "unat (drop_bit 7 x) < 2 ^ (7 * k)" by (simp only: unat_drop7)
    from "1.IH" [OF True this k] have "length (putUvarint (drop_bit 7 x)) \<le> k" .
    moreover have "putUvarint x = (ucast x OR 0x80) # putUvarint (drop_bit 7 x)"
      using True by (subst putUvarint.simps) simp
    ultimately show ?thesis by (simp add: n)
  qed
qed

lemma putUvarint_le_10: "length (putUvarint x) \<le> 10"
proof -
  have "unat x < 2 ^ 64" using unsigned_less [of x] by simp
  also have "(2::nat) ^ 64 \<le> 2 ^ (7 * 10)" by simp
  finally show ?thesis using putUvarint_length [of x 10] by simp
qed

lemma kind_high_bits:
  assumes "(k :: tagClass) < 8" and "3 \<le> m"
  shows "\<not> bit k m"
proof -
  have "unat k < 2 ^ 3" using assms(1) by (simp add: word_less_nat_alt)
  also have "(2::nat) ^ 3 \<le> 2 ^ m" using assms(2) by (simp only: power_increasing one_le_numeral)
  finally have "unat k div 2 ^ m = 0" by simp
  then have "\<not> bit (unat k) m" by (simp add: bit_iff_odd)
  then show ?thesis by (simp add: bit_unsigned_iff)
qed

lemma header_tag:
  assumes "(k :: tagClass) < 8"
  shows "(ucast (drop_bit 3 (headerValue t k)) :: tagNum) = t"
  unfolding headerValue_def
proof (rule bit_word_eqI)
  fix n
  assume "n < LENGTH(32)"
  then have n: "n < 32" by simp
  have "\<not> bit k (3 + n)" using kind_high_bits [OF assms, of "3 + n"] by simp
  then show "bit (ucast (drop_bit 3 (push_bit 3 (ucast t :: uint64) OR ucast k)) :: tagNum) n = bit t n"
    using n by (simp add: bit_ucast_iff bit_drop_bit_eq bit_or_iff bit_push_bit_iff)
qed

lemma header_kind:
  assumes "(k :: tagClass) < 8"
  shows "(ucast (headerValue t k AND 0x07) :: tagClass) = k"
  unfolding headerValue_def
proof (rule bit_word_eqI)
  fix n
  assume "n < LENGTH(8)"
  then have n: "n < 8" by simp
  have seven: "(0x07 :: uint64) = mask 3" by (simp add: mask_eq_exp_minus_1)
  have hi: "n < 3" if "bit k n"
    using kind_high_bits [OF assms, of n] that by (cases "3 \<le> n") auto
  show "bit (ucast ((push_bit 3 (ucast t :: uint64) OR ucast k) AND 0x07) :: tagClass) n = bit k n"
    unfolding seven using n hi
    by (auto simp: bit_ucast_iff bit_and_iff bit_or_iff bit_push_bit_iff bit_mask_iff not_less)
qed

lemma Uvarint_header:
  "Uvarint \<lparr>vis = header t k @ rest, spare = sp\<rparr> = (headerValue t k, int (length (header t k)))"
  by (simp add: header_def Uvarint_put)

lemma header_nonempty: "header t k \<noteq> []"
  by (simp add: header_def putUvarint_nonempty)

lemma header_le_10: "length (header t k) \<le> 10"
  by (simp add: header_def putUvarint_le_10)

text \<open>
  A header followed by a varint, by four or eight bytes, or by a length and as many
  bytes, is an entry, for every tag number other than 0.
\<close>

lemma kinds_distinct:
  "tag32bit \<noteq> tagUvarint" "tag64bit \<noteq> tagUvarint" "tag64bit \<noteq> tag32bit"
  "tagSequence \<noteq> tagUvarint" "tagSequence \<noteq> tag32bit" "tagSequence \<noteq> tag64bit"
  by (simp_all add: tagUvarint_def tag32bit_def tag64bit_def tagSequence_def)

lemma entry_varint:
  assumes "t \<noteq> 0"
  shows "entry (header t tagUvarint @ putUvarint v, v, nil, t)"
proof -
  have k: "tagUvarint < 8" by (simp add: tagUvarint_def)
  have "readNext \<lparr>vis = (header t tagUvarint @ putUvarint v) @ rest, spare = sp\<rparr> =
        Inr (v, nil, t, int (length (header t tagUvarint @ putUvarint v)))" for rest sp
    using assms
    by (simp add: readNext_def Uvarint_header header_tag [OF k] header_kind [OF k]
        slice_from_def len_def Uvarint_put Let_def)
  then show ?thesis by (simp add: entry_def header_nonempty)
qed

lemma entry_fixed32:
  assumes "t \<noteq> 0" and "length bs = 4"
  shows "entry (header t tag32bit @ bs, ucast (ucast (le_word bs) :: 32 word), nil, t)"
proof -
  have k: "tag32bit < 8" by (simp add: tag32bit_def)
  have "readNext \<lparr>vis = (header t tag32bit @ bs) @ rest, spare = sp\<rparr> =
        Inr (ucast (ucast (le_word bs) :: 32 word), nil, t, int (length (header t tag32bit @ bs)))"
    for rest sp
    using assms
    by (simp add: readNext_def Uvarint_header header_tag [OF k] header_kind [OF k]
        slice2_def cap_def Uint32_def kinds_distinct Let_def)
  then show ?thesis by (simp add: entry_def header_nonempty)
qed

lemma entry_fixed64:
  assumes "t \<noteq> 0" and "length bs = 8"
  shows "entry (header t tag64bit @ bs, le_word bs, nil, t)"
proof -
  have k: "tag64bit < 8" by (simp add: tag64bit_def)
  have "readNext \<lparr>vis = (header t tag64bit @ bs) @ rest, spare = sp\<rparr> =
        Inr (le_word bs, nil, t, int (length (header t tag64bit @ bs)))"
    for rest sp
    using assms
    by (simp add: readNext_def Uvarint_header header_tag [OF k] header_kind [OF k]
        slice2_def cap_def Uint64_def kinds_distinct Let_def)
  then show ?thesis by (simp add: entry_def header_nonempty)
qed


lemma sint_length:
  assumes "length p < 2 ^ 62"
  shows "sint (of_nat (length p) :: uint64) = int (length p)"
proof -
  have "int (length p) < 2 ^ 63"
  proof -
    have "int (length p) < 2 ^ 62" using assms by (metis of_nat_less_iff of_nat_numeral of_nat_power)
    then show ?thesis by simp
  qed
  then have "signed_take_bit 63 (int (length p)) = int (length p)"
    by (intro signed_take_bit_int_eq_self) simp_all
  then show ?thesis by (simp add: signed_of_nat)
qed

lemma wrapInt_small: "0 \<le> x \<Longrightarrow> x < 2 ^ 63 \<Longrightarrow> wrapInt x = x"
  unfolding wrapInt_def by (intro signed_take_bit_int_eq_self) simp_all

lemma entry_bytes:
  assumes "t \<noteq> 0" and "length p < 2 ^ 62"
  shows "entry (header t tagSequence @ putUvarint (of_nat (length p)) @ p, 0, bytes p, t)"
proof -
  let ?h = "header t tagSequence" and ?l = "putUvarint (of_nat (length p) :: uint64)"
  have k: "tagSequence < 8" by (simp add: tagSequence_def)
  have l0: "length ?l \<noteq> 0" using putUvarint_nonempty [of "of_nat (length p)"] by simp
  have "int (length p) < 2 ^ 62"
    using assms(2) by (metis of_nat_less_iff of_nat_numeral of_nat_power)
  moreover have "int (length ?h) \<le> 10" "int (length ?l) \<le> 10"
    using header_le_10 [of t tagSequence] putUvarint_le_10 [of "of_nat (length p)"] by simp_all
  ultimately have w: "wrapInt (int (length ?h) + int (length ?l) + int (length p)) =
      int (length ?h) + int (length ?l) + int (length p)"
    by (intro wrapInt_small) simp_all
  have "readNext \<lparr>vis = (?h @ ?l @ p) @ rest, spare = sp\<rparr> =
        Inr (0, bytes p, t, int (length (?h @ ?l @ p)))" for rest sp
    using assms(1) l0
    by (simp add: readNext_def Uvarint_header header_tag [OF k] header_kind [OF k]
        slice_from_def len_def Uvarint_put kinds_distinct Let_def sint_length [OF assms(2)] w
        slice3_def cap_def bytes_def)
  then show ?thesis by (simp add: entry_def header_nonempty)
qed

section \<open>The loops on a slice of entries\<close>

text \<open>
  On an entry at the cursor, a loop runs its \<open>switch\<close> and moves the cursor behind the
  entry; at the end of the slice it returns without error. So a walker on a slice of
  entries returns without error exactly the result of its \<open>Run\<close> function.
\<close>

lemma wire_simps [simp]:
  "wire [] = []" "wire ((e, d, b, t) # es) = e @ wire es" "wire (xs @ ys) = wire xs @ wire ys"
  by (simp_all add: wire_def)

lemma entry_nonempty: "entry (e, d, b, t) \<Longrightarrow> 0 < length e"
  by (simp add: entry_def)

lemma entry_read:
  "entry (e, d, b, t) \<Longrightarrow>
   readNext \<lparr>vis = e @ rest, spare = sp\<rparr> = Inr (d, b, t, int (length e))"
  by (simp add: entry_def)

lemma read_at:
  assumes "entry (e, d, b, t)"
  shows "int (length pre) < len \<lparr>vis = pre @ e @ rest, spare = sp\<rparr>"
    and "readNextAt \<lparr>vis = pre @ e @ rest, spare = sp\<rparr> (int (length pre)) =
           Inr (d, b, t, int (length e))"
    and "e \<noteq> []"
proof -
  have ne: "e \<noteq> []" using entry_nonempty [OF assms] by simp
  then show "e \<noteq> []" .
  from ne show "int (length pre) < len \<lparr>vis = pre @ e @ rest, spare = sp\<rparr>"
    by (cases e) (simp_all add: len_def)
  show "readNextAt \<lparr>vis = pre @ e @ rest, spare = sp\<rparr> (int (length pre)) =
           Inr (d, b, t, int (length e))"
    by (simp add: readNextAt_def len_def slice_from_def entry_read [OF assms])
qed

lemma parseFieldLoop_step:
  assumes "entry (e, d, b, t)"
  shows "parseFieldLoop \<lparr>vis = pre @ e @ rest, spare = sp\<rparr> (int (length pre)) f =
         parseFieldLoop \<lparr>vis = pre @ e @ rest, spare = sp\<rparr> (int (length (pre @ e)))
           (fieldSwitch f t d b)"
  by (subst parseFieldLoop.simps) (simp add: read_at [OF assms])

lemma parseFieldLoop_end:
  "parseFieldLoop \<lparr>vis = pre, spare = sp\<rparr> (int (length pre)) f = Some (Inr (f, None))"
  by (subst parseFieldLoop.simps) (simp add: len_def)

lemma parseFieldLoop_run:
  assumes "list_all entry es"
  shows "parseFieldLoop \<lparr>vis = pre @ wire es, spare = sp\<rparr> (int (length pre)) f =
         Some (Inr (fieldRun f es, None))"
  using assms
proof (induction es arbitrary: pre f)
  case Nil
  then show ?case by (simp add: parseFieldLoop_end)
next
  case (Cons it es)
  obtain e d b t where it: "it = (e, d, b, t)" by (cases it)
  have "parseFieldLoop \<lparr>vis = pre @ e @ wire es, spare = sp\<rparr> (int (length pre)) f =
        parseFieldLoop \<lparr>vis = (pre @ e) @ wire es, spare = sp\<rparr> (int (length (pre @ e)))
           (fieldSwitch f t d b)"
    using Cons.prems parseFieldLoop_step [of e d b t pre "wire es" sp f] by (simp add: it)
  also have "\<dots> = Some (Inr (fieldRun (fieldSwitch f t d b) es, None))"
    using Cons.prems by (intro Cons.IH) simp
  finally show ?case by (simp add: it)
qed


lemma parseMessageLoop_step:
  assumes "entry (e, d, b, t)"
  shows "parseMessageLoop \<lparr>vis = pre @ e @ rest, spare = sp\<rparr> (int (length pre)) m =
     (if t = 1 then
        parseMessageLoop \<lparr>vis = pre @ e @ rest, spare = sp\<rparr> (int (length (pre @ e)))
          (Message (string_of b) (Message_Field m) (Message_Nested m))
      else if t = 2 then
        Option.bind (parseField b) (\<lambda>r.
          case r of
            Inl e \<Rightarrow> Some (Inl e)
          | Inr (f, Some err) \<Rightarrow> Some (Inr (m, Some (int (length pre) + err)))
          | Inr (f, None) \<Rightarrow>
              parseMessageLoop \<lparr>vis = pre @ e @ rest, spare = sp\<rparr> (int (length (pre @ e)))
                (Message (Message_Name m) (Message_Field m @ [f]) (Message_Nested m)))
      else if t = 4 then
        Option.bind (parseMessage b) (\<lambda>r.
          case r of
            Inl e \<Rightarrow> Some (Inl e)
          | Inr (nm, Some err) \<Rightarrow> Some (Inr (m, Some (int (length pre) + err)))
          | Inr (nm, None) \<Rightarrow>
              parseMessageLoop \<lparr>vis = pre @ e @ rest, spare = sp\<rparr> (int (length (pre @ e)))
                (Message (Message_Name m) (Message_Field m) (Message_Nested m @ [nm])))
      else parseMessageLoop \<lparr>vis = pre @ e @ rest, spare = sp\<rparr> (int (length (pre @ e))) m)"
  by (subst parseMessageLoop.simps) (simp add: read_at [OF assms] parseMessage_def)

lemma parseMessageLoop_end:
  "parseMessageLoop \<lparr>vis = pre, spare = sp\<rparr> (int (length pre)) m = Some (Inr (m, None))"
  by (subst parseMessageLoop.simps) (simp add: len_def)

lemma parseMessageLoop_run:
  assumes "list_all entry es"
  shows "(parseMessageLoop \<lparr>vis = pre @ wire es, spare = sp\<rparr> (int (length pre)) m =
            Some (Inr (r, None))) = (messageRun m es = Some r)"
  using assms
proof (induction es arbitrary: pre m)
  case Nil
  then show ?case by (auto simp: parseMessageLoop_end)
next
  case (Cons it es)
  obtain e d b t where it: "it = (e, d, b, t)" by (cases it)
  have en: "entry (e, d, b, t)" and es: "list_all entry es" using Cons.prems by (simp_all add: it)
  note step = parseMessageLoop_step [OF en, of pre "wire es" sp m]
  note IH = Cons.IH [OF es, of "pre @ e", simplified]
  show ?case
    unfolding it wire_simps step
    by (auto simp: IH split: option.splits sum.splits prod.splits Option.bind_splits)
qed


lemma parseFileLoop_step:
  assumes "entry (e, d, b, t)"
  shows "parseFileLoop \<lparr>vis = pre @ e @ rest, spare = sp\<rparr> (int (length pre)) f =
     (if t = 1 then
        parseFileLoop \<lparr>vis = pre @ e @ rest, spare = sp\<rparr> (int (length (pre @ e)))
          (f\<lparr>File_Name := string_of b\<rparr>)
      else if t = 2 then
        parseFileLoop \<lparr>vis = pre @ e @ rest, spare = sp\<rparr> (int (length (pre @ e)))
          (f\<lparr>File_Package := string_of b\<rparr>)
      else if t = 4 then
        Option.bind (parseMessage b) (\<lambda>r.
          case r of
            Inl e \<Rightarrow> Some (Inl e)
          | Inr (m, Some err) \<Rightarrow> Some (Inr (f, Some (int (length pre) + err)))
          | Inr (m, None) \<Rightarrow>
              parseFileLoop \<lparr>vis = pre @ e @ rest, spare = sp\<rparr> (int (length (pre @ e)))
                (f\<lparr>File_Message := File_Message f @ [m]\<rparr>))
      else if t = 12 then
        parseFileLoop \<lparr>vis = pre @ e @ rest, spare = sp\<rparr> (int (length (pre @ e)))
          (f\<lparr>File_Format := string_of b\<rparr>)
      else parseFileLoop \<lparr>vis = pre @ e @ rest, spare = sp\<rparr> (int (length (pre @ e))) f)"
  by (subst parseFileLoop.simps) (simp add: read_at [OF assms])

lemma parseFileLoop_end:
  "parseFileLoop \<lparr>vis = pre, spare = sp\<rparr> (int (length pre)) f = Some (Inr (f, None))"
  by (subst parseFileLoop.simps) (simp add: len_def)

lemma parseFileLoop_run:
  assumes "list_all entry es"
  shows "(parseFileLoop \<lparr>vis = pre @ wire es, spare = sp\<rparr> (int (length pre)) f =
            Some (Inr (r, None))) = (fileRun f es = Some r)"
  using assms
proof (induction es arbitrary: pre f)
  case Nil
  then show ?case by (auto simp: parseFileLoop_end)
next
  case (Cons it es)
  obtain e d b t where it: "it = (e, d, b, t)" by (cases it)
  have en: "entry (e, d, b, t)" and es: "list_all entry es" using Cons.prems by (simp_all add: it)
  note step = parseFileLoop_step [OF en, of pre "wire es" sp f]
  note IH = Cons.IH [OF es, of "pre @ e", simplified]
  show ?case
    unfolding it wire_simps step
    by (auto simp: IH split: option.splits sum.splits prod.splits Option.bind_splits)
qed

lemma parseDescriptorLoop_step:
  assumes "entry (e, d, b, t)"
  shows "parseDescriptorLoop \<lparr>vis = pre @ e @ rest, spare = sp\<rparr> (int (length pre)) files =
     (if t = 1 then
        Option.bind (parseFile b) (\<lambda>r.
          case r of
            Inl e \<Rightarrow> Some (Inl e)
          | Inr (f, Some err) \<Rightarrow> Some (Inr (files, Some (int (length pre) + err)))
          | Inr (f, None) \<Rightarrow>
              parseDescriptorLoop \<lparr>vis = pre @ e @ rest, spare = sp\<rparr> (int (length (pre @ e)))
                (files @ [f]))
      else parseDescriptorLoop \<lparr>vis = pre @ e @ rest, spare = sp\<rparr> (int (length (pre @ e)))
             files)"
  by (subst parseDescriptorLoop.simps) (simp add: read_at [OF assms])

lemma parseDescriptorLoop_end:
  "parseDescriptorLoop \<lparr>vis = pre, spare = sp\<rparr> (int (length pre)) files =
     Some (Inr (files, None))"
  by (subst parseDescriptorLoop.simps) (simp add: len_def)

lemma parseDescriptorLoop_run:
  assumes "list_all entry es"
  shows "(parseDescriptorLoop \<lparr>vis = pre @ wire es, spare = sp\<rparr> (int (length pre)) files =
            Some (Inr (r, None))) = (setRun files es = Some r)"
  using assms
proof (induction es arbitrary: pre files)
  case Nil
  then show ?case by (auto simp: parseDescriptorLoop_end)
next
  case (Cons it es)
  obtain e d b t where it: "it = (e, d, b, t)" by (cases it)
  have en: "entry (e, d, b, t)" and es: "list_all entry es" using Cons.prems by (simp_all add: it)
  note step = parseDescriptorLoop_step [OF en, of pre "wire es" sp files]
  note IH = Cons.IH [OF es, of "pre @ e", simplified]
  show ?case
    unfolding it wire_simps step
    by (auto simp: IH split: option.splits sum.splits prod.splits Option.bind_splits)
qed

text \<open>The walkers on a buffer of entries.\<close>

lemma parseField_run:
  "list_all entry es \<Longrightarrow>
   parseField \<lparr>vis = wire es, spare = sp\<rparr> = Some (Inr (fieldRun newField es, None))"
  using parseFieldLoop_run [of es "[]" sp newField] by (simp add: parseField_def)

lemma parseMessage_run:
  "list_all entry es \<Longrightarrow>
   (parseMessage \<lparr>vis = wire es, spare = sp\<rparr> = Some (Inr (r, None))) =
   (messageRun newMessage es = Some r)"
  using parseMessageLoop_run [of es "[]" sp newMessage r] by (simp add: parseMessage_def)

lemma parseFile_run:
  "list_all entry es \<Longrightarrow>
   (parseFile \<lparr>vis = wire es, spare = sp\<rparr> = Some (Inr (r, None))) =
   (fileRun newFile es = Some r)"
  using parseFileLoop_run [of es "[]" sp newFile r] by (simp add: parseFile_def)

lemma parseDescriptor_run:
  "list_all entry es \<Longrightarrow>
   (parseDescriptor \<lparr>vis = wire es, spare = sp\<rparr> = Some (Inr (r, None))) =
   (setRun [] es = Some r)"
  using parseDescriptorLoop_run [of es "[]" sp "[]" r] by (simp add: parseDescriptor_def)

section \<open>Unknown entries\<close>

lemma fieldRun_append: "fieldRun f (xs @ ys) = fieldRun (fieldRun f xs) ys"
  by (induction xs arbitrary: f) auto

lemma messageRun_append:
  "messageRun m (xs @ ys) = Option.bind (messageRun m xs) (\<lambda>m'. messageRun m' ys)"
  by (induction xs arbitrary: m) (auto split: option.splits sum.splits)

lemma fileRun_append:
  "fileRun f (xs @ ys) = Option.bind (fileRun f xs) (\<lambda>f'. fileRun f' ys)"
  by (induction xs arbitrary: f) (auto split: option.splits sum.splits)

lemma setRun_append:
  "setRun fs (xs @ ys) = Option.bind (setRun fs xs) (\<lambda>fs'. setRun fs' ys)"
  by (induction xs arbitrary: fs) (auto split: option.splits sum.splits)

lemma slice_eta: "\<lparr>vis = vis (b::slice), spare = spare b\<rparr> = b"
  by (cases b) simp

lemma insField_same:
  assumes "insField xs ys"
    and "parseField \<lparr>vis = xs, spare = sp\<rparr> = Some (Inr (r, None))"
  shows "parseField \<lparr>vis = ys, spare = sp'\<rparr> = Some (Inr (r, None))"
  using assms
proof (induction rule: insField.induct)
  case (insField_here es1 u es2)
  obtain e d b t where u: "u = (e, d, b, t)" by (cases u)
  have "fieldRun newField (es1 @ u # es2) = fieldRun newField (es1 @ es2)"
    using insField_here.hyps(2) by (simp add: fieldRun_append u tagOf_def fieldSwitch_def)
  then show ?case
    using insField_here parseField_run [of "es1 @ u # es2" sp']
      parseField_run [of "es1 @ es2" sp]
    by simp
qed

lemma insMessage_same:
  assumes "insMessage xs ys"
    and "parseMessage \<lparr>vis = xs, spare = sp\<rparr> = Some (Inr (r, None))"
  shows "parseMessage \<lparr>vis = ys, spare = sp'\<rparr> = Some (Inr (r, None))"
  using assms
proof (induction arbitrary: sp sp' r rule: insMessage.induct)
  case (insMessage_here es1 u es2)
  obtain e d b t where u: "u = (e, d, b, t)" by (cases u)
  have "messageRun newMessage (es1 @ u # es2) = messageRun newMessage (es1 @ es2)"
    using insMessage_here.hyps(2) by (simp add: messageRun_append u tagOf_def)
  then show ?case
    using insMessage_here parseMessage_run [of "es1 @ u # es2" sp' r]
      parseMessage_run [of "es1 @ es2" sp r]
    by simp
next
  case (insMessage_field es1 es2 e d b e' d' b' )
  have sub: "parseField b' = Some (Inr (f, None))" if "parseField b = Some (Inr (f, None))" for f
    using insField_same [OF insMessage_field.hyps(4), of "spare b" f "spare b'"] that
    by (simp add: slice_eta)
  have all: "list_all entry (es1 @ (e, d, b, 2) # es2)" "list_all entry (es1 @ (e', d', b', 2) # es2)"
    using insMessage_field.hyps by simp_all
  have "messageRun newMessage (es1 @ (e, d, b, 2) # es2) = Some r"
    using insMessage_field.prems parseMessage_run [OF all(1), of sp r] by simp
  then have "messageRun newMessage (es1 @ (e', d', b', 2) # es2) = Some r"
    by (auto simp: messageRun_append sub split: option.splits sum.splits Option.bind_splits)
  then show ?case using parseMessage_run [OF all(2), of sp' r] by simp
next
  case (insMessage_nested es1 es2 e d b e' d' b')
  have sub: "parseMessage b' = Some (Inr (f, None))" if "parseMessage b = Some (Inr (f, None))" for f
    using insMessage_nested.IH [of "spare b" f "spare b'"] that by (simp add: slice_eta)
  have all: "list_all entry (es1 @ (e, d, b, 4) # es2)" "list_all entry (es1 @ (e', d', b', 4) # es2)"
    using insMessage_nested.hyps by simp_all
  have "messageRun newMessage (es1 @ (e, d, b, 4) # es2) = Some r"
    using insMessage_nested.prems parseMessage_run [OF all(1), of sp r] by simp
  then have "messageRun newMessage (es1 @ (e', d', b', 4) # es2) = Some r"
    by (auto simp: messageRun_append sub split: option.splits sum.splits Option.bind_splits)
  then show ?case using parseMessage_run [OF all(2), of sp' r] by simp
qed


lemma insFile_same:
  assumes "insFile xs ys"
    and "parseFile \<lparr>vis = xs, spare = sp\<rparr> = Some (Inr (r, None))"
  shows "parseFile \<lparr>vis = ys, spare = sp'\<rparr> = Some (Inr (r, None))"
  using assms
proof (induction rule: insFile.induct)
  case (insFile_here es1 u es2)
  obtain e d b t where u: "u = (e, d, b, t)" by (cases u)
  have "fileRun newFile (es1 @ u # es2) = fileRun newFile (es1 @ es2)"
    using insFile_here.hyps(2) by (simp add: fileRun_append u tagOf_def)
  then show ?case
    using insFile_here parseFile_run [of "es1 @ u # es2" sp' r]
      parseFile_run [of "es1 @ es2" sp r]
    by simp
next
  case (insFile_message es1 es2 e d b e' d' b')
  have sub: "parseMessage b' = Some (Inr (m, None))" if "parseMessage b = Some (Inr (m, None))" for m
    using insMessage_same [OF insFile_message.hyps(4), of "spare b" m "spare b'"] that
    by (simp add: slice_eta)
  have all: "list_all entry (es1 @ (e, d, b, 4) # es2)" "list_all entry (es1 @ (e', d', b', 4) # es2)"
    using insFile_message.hyps by simp_all
  have "fileRun newFile (es1 @ (e, d, b, 4) # es2) = Some r"
    using insFile_message.prems parseFile_run [OF all(1), of sp r] by simp
  then have "fileRun newFile (es1 @ (e', d', b', 4) # es2) = Some r"
    by (auto simp: fileRun_append sub split: option.splits sum.splits Option.bind_splits)
  then show ?case using parseFile_run [OF all(2), of sp' r] by simp
qed
text \<open>
  C6: when a buffer of entries is decoded without error, and one more entry with a tag
  number that the walker at that place does not know is inserted between two entries of
  the buffer, of a File, of a Message or of a Field at any depth (the entries of the
  enclosing entities written again), then the new buffer is decoded without error to the
  same result. \<open>entry_varint\<close>, \<open>entry_fixed32\<close>, \<open>entry_fixed64\<close> and
  \<open>entry_bytes\<close> show that the encodings of the four wire types are such entries.
\<close>

theorem unknown_entries_are_skipped:
  assumes "insSet xs ys"
    and "parseDescriptor \<lparr>vis = xs, spare = sp\<rparr> = Some (Inr (r, None))"
  shows "parseDescriptor \<lparr>vis = ys, spare = sp'\<rparr> = Some (Inr (r, None))"
  using assms
proof (induction rule: insSet.induct)
  case (insSet_here es1 u es2)
  obtain e d b t where u: "u = (e, d, b, t)" by (cases u)
  have "setRun [] (es1 @ u # es2) = setRun [] (es1 @ es2)"
    using insSet_here.hyps(2) by (simp add: setRun_append u tagOf_def)
  then show ?case
    using insSet_here parseDescriptor_run [of "es1 @ u # es2" sp' r]
      parseDescriptor_run [of "es1 @ es2" sp r]
    by simp
next
  case (insSet_file es1 es2 e d b e' d' b')
  have sub: "parseFile b' = Some (Inr (f, None))" if "parseFile b = Some (Inr (f, None))" for f
    using insFile_same [OF insSet_file.hyps(4), of "spare b" f "spare b'"] that
    by (simp add: slice_eta)
  have all: "list_all entry (es1 @ (e, d, b, 1) # es2)" "list_all entry (es1 @ (e', d', b', 1) # es2)"
    using insSet_file.hyps by simp_all
  have "setRun [] (es1 @ (e, d, b, 1) # es2) = Some r"
    using insSet_file.prems parseDescriptor_run [OF all(1), of sp r] by simp
  then have "setRun [] (es1 @ (e', d', b', 1) # es2) = Some r"
    by (auto simp: setRun_append sub split: option.splits sum.splits Option.bind_splits)
  then show ?case using parseDescriptor_run [OF all(2), of sp' r] by simp
qed

lemma entry_name: "entry ([0x0a, 5, 0x50, 0x6f, 0x69, 0x6e, 0x74], 0, bytes [0x50, 0x6f, 0x69, 0x6e, 0x74], 1)"
  by (simp add: entry_def wire_defs)

lemma entry_fieldX: "entry ([0x12, 5] @ fieldX, 0, bytes fieldX, 2)"
  by (simp add: entry_def wire_defs fieldX_def)

lemma entry_fieldY: "entry ([0x12, 5] @ fieldY, 0, bytes fieldY, 2)"
  by (simp add: entry_def wire_defs fieldY_def)

text \<open>The new entry of scenario B is the encoding of tag number 7 with the varint 1.\<close>

lemma entry_seven_encoding: "header 7 tagUvarint @ putUvarint 1 = [0x38, 1]"
  by (simp add: header_def headerValue_def tagUvarint_def putUvarint.simps word_le_nat_alt)

lemma entry_seven: "entry ([0x38, 1], 1, nil, 7)"
  using entry_varint [of 7 1] by (simp add: entry_seven_encoding)

lemma entry_pointA: "entry ([0x22, 21] @ pointA, 0, bytes pointA, 4)"
  by (simp add: entry_def wire_defs pointA_def fieldX_def fieldY_def)

lemma entry_pointB: "entry ([0x22, 23] @ pointB, 0, bytes pointB, 4)"
  by (simp add: entry_def wire_defs pointB_def pointA_def fieldX_def fieldY_def)

lemma entry_fileA: "entry ([0x0a, 23, 0x22, 21] @ pointA, 0, bytes ([0x22, 21] @ pointA), 1)"
  by (simp add: entry_def wire_defs pointA_def fieldX_def fieldY_def)

lemma entry_fileB: "entry ([0x0a, 25, 0x22, 23] @ pointB, 0, bytes ([0x22, 23] @ pointB), 1)"
  by (simp add: entry_def wire_defs pointB_def pointA_def fieldX_def fieldY_def)

lemma insMessage_point: "insMessage pointA pointB"
  using insMessage_here
    [of "[([0x0a, 5, 0x50, 0x6f, 0x69, 0x6e, 0x74], 0, bytes [0x50, 0x6f, 0x69, 0x6e, 0x74], 1),
          ([0x12, 5] @ fieldX, 0, bytes fieldX, 2), ([0x12, 5] @ fieldY, 0, bytes fieldY, 2)]"
        "([0x38, 1], 1, nil, 7)" "[]"]
    entry_name entry_fieldX entry_fieldY entry_seven
  by (simp add: tagOf_def pointA_def pointB_def)

lemma insFile_point: "insFile ([0x22, 21] @ pointA) ([0x22, 23] @ pointB)"
  using insFile_message [of "[]" "[]", OF _ entry_pointA entry_pointB] insMessage_point
  by (simp add: bytes_def)

lemma insSet_scenario: "insSet scenarioA scenarioB"
proof -
  have "insSet ([0x0a, 23, 0x22, 21] @ pointA) ([0x0a, 25, 0x22, 23] @ pointB)"
    using insSet_file [of "[]" "[]", OF _ entry_fileA entry_fileB] insFile_point
    by (simp add: bytes_def)
  then show ?thesis by (simp add: scenarioA_def scenarioB_def pointA_def fieldX_def fieldY_def)
qed

theorem unknown_entries_are_skipped_witness:
  "insSet scenarioA scenarioB \<and>
   parseDescriptor (bytes scenarioA) =
     Some (Inr ([\<lparr>File_Name = [], File_Package = [],
                  File_Message =
                    [Message ''Point''
                       [\<lparr>Field_Name = ''x'', Field_Tag = 1, Field_Label = 0, Field_Type = 0,
                          Field_OneOfIndex = 0\<rparr>,
                        \<lparr>Field_Name = ''y'', Field_Tag = 2, Field_Label = 0, Field_Type = 0,
                          Field_OneOfIndex = 0\<rparr>]
                       []],
                  File_Format = []\<rparr>], None)) \<and>
   parseDescriptor (bytes scenarioB) =
     Some (Inr ([\<lparr>File_Name = [], File_Package = [],
                  File_Message =
                    [Message ''Point''
                       [\<lparr>Field_Name = ''x'', Field_Tag = 1, Field_Label = 0, Field_Type = 0,
                          Field_OneOfIndex = 0\<rparr>,
                        \<lparr>Field_Name = ''y'', Field_Tag = 2, Field_Label = 0, Field_Type = 0,
                          Field_OneOfIndex = 0\<rparr>]
                       []],
                  File_Format = []\<rparr>], None))"
proof -
  let ?r = "[\<lparr>File_Name = [], File_Package = [],
                  File_Message =
                    [Message ''Point''
                       [\<lparr>Field_Name = ''x'', Field_Tag = 1, Field_Label = 0, Field_Type = 0,
                          Field_OneOfIndex = 0\<rparr>,
                        \<lparr>Field_Name = ''y'', Field_Tag = 2, Field_Label = 0, Field_Type = 0,
                          Field_OneOfIndex = 0\<rparr>]
                       []],
                  File_Format = []\<rparr>]"
  have a: "parseDescriptor (bytes scenarioA) = Some (Inr (?r, None))"
    by code_simp
  then have "parseDescriptor \<lparr>vis = scenarioA, spare = []\<rparr> = Some (Inr (?r, None))"
    by (simp only: bytes_def)
  from unknown_entries_are_skipped [OF insSet_scenario this, of "[]"]
  have "parseDescriptor (bytes scenarioB) = Some (Inr (?r, None))"
    by (simp only: bytes_def)
  with a insSet_scenario show ?thesis by simp
qed

section \<open>The last entry of a tag number wins\<close>

lemma fieldRun_keep:
  "t \<notin> tagOf ` set es \<Longrightarrow>
   (t = 1 \<longrightarrow> Field_Name (fieldRun f es) = Field_Name f) \<and>
   (t = 3 \<longrightarrow> Field_Tag (fieldRun f es) = Field_Tag f) \<and>
   (t = 4 \<longrightarrow> Field_Label (fieldRun f es) = Field_Label f) \<and>
   (t = 5 \<longrightarrow> Field_Type (fieldRun f es) = Field_Type f) \<and>
   (t = 9 \<longrightarrow> Field_OneOfIndex (fieldRun f es) = Field_OneOfIndex f)"
  by (induction es arbitrary: f) (auto simp: tagOf_def fieldSwitch_def)

lemma messageRun_keep:
  "messageRun m es = Some m' \<Longrightarrow> 1 \<notin> tagOf ` set es \<Longrightarrow> Message_Name m' = Message_Name m"
  by (induction es arbitrary: m)
    (auto simp: tagOf_def split: if_splits option.splits sum.splits)

lemma fileRun_keep:
  "fileRun f es = Some f' \<Longrightarrow> t \<notin> tagOf ` set es \<Longrightarrow>
   (t = 1 \<longrightarrow> File_Name f' = File_Name f) \<and>
   (t = 2 \<longrightarrow> File_Package f' = File_Package f) \<and>
   (t = 12 \<longrightarrow> File_Format f' = File_Format f)"
  by (induction es arbitrary: f)
    (auto simp: tagOf_def split: if_splits option.splits sum.splits)

text \<open>
  When the payloads of its Field and Message entries are decoded without error, a walker
  on a slice of entries returns without error: no entry is rejected.
\<close>

lemma messageRun_total:
  "fieldsDecode es \<Longrightarrow> messagesDecode es \<Longrightarrow> \<exists>m'. messageRun m es = Some m'"
proof (induction es arbitrary: m)
  case Nil
  then show ?case by simp
next
  case (Cons it es)
  obtain e d b t where it: "it = (e, d, b, t)" by (cases it)
  have rest: "fieldsDecode es" "messagesDecode es"
    using Cons.prems by (simp_all add: fieldsDecode_def messagesDecode_def)
  have f: "\<exists>f. parseField b = Some (Inr (f, None))" if "t = 2"
    using Cons.prems(1) that by (simp add: fieldsDecode_def it)
  have n: "\<exists>x. parseMessage b = Some (Inr (x, None))" if "t = 4"
    using Cons.prems(2) that by (simp add: messagesDecode_def it)
  show ?case
    using Cons.IH [OF rest] f n by (auto simp: it)
qed

lemma fileRun_total:
  "messagesDecode es \<Longrightarrow> \<exists>f'. fileRun f es = Some f'"
proof (induction es arbitrary: f)
  case Nil
  then show ?case by simp
next
  case (Cons it es)
  obtain e d b t where it: "it = (e, d, b, t)" by (cases it)
  have rest: "messagesDecode es"
    using Cons.prems by (simp add: messagesDecode_def)
  have n: "\<exists>x. parseMessage b = Some (Inr (x, None))" if "t = 4"
    using Cons.prems that by (simp add: messagesDecode_def it)
  show ?case
    using Cons.IH [OF rest] n by (auto simp: it)
qed

text \<open>
  C10: in a slice of entries, let \<open>(e, d, b, t)\<close> be the last entry with the tag number
  \<open>t\<close>; earlier entries may have the same tag number. Then \<open>parseField\<close> returns
  without error, and the attribute that \<open>t\<close> names has the value of this last entry (its
  bytes as a string, or its number narrowed to the width of the attribute). So does
  \<open>parseMessage\<close> for the name, and \<open>parseFile\<close> for the name, the package and the
  format, provided the payloads of the nested Fields and Messages among the entries are
  themselves decoded without error.
\<close>

theorem last_entry_wins:
  assumes "list_all entry (es1 @ (e, d, b, t) # es2)" and "t \<notin> tagOf ` set es2"
  shows
   "(\<exists>f. parseField \<lparr>vis = wire (es1 @ (e, d, b, t) # es2), spare = sp\<rparr> = Some (Inr (f, None)) \<and>
        (t = 1 \<longrightarrow> Field_Name f = string_of b) \<and>
        (t = 3 \<longrightarrow> Field_Tag f = ucast d) \<and>
        (t = 4 \<longrightarrow> Field_Label f = ucast d) \<and>
        (t = 5 \<longrightarrow> Field_Type f = ucast d) \<and>
        (t = 9 \<longrightarrow> Field_OneOfIndex f = ucast d)) \<and>
    (fieldsDecode (es1 @ (e, d, b, t) # es2) \<and> messagesDecode (es1 @ (e, d, b, t) # es2) \<longrightarrow>
       (\<exists>m. parseMessage \<lparr>vis = wire (es1 @ (e, d, b, t) # es2), spare = sp\<rparr> =
              Some (Inr (m, None)) \<and>
            (t = 1 \<longrightarrow> Message_Name m = string_of b))) \<and>
    (messagesDecode (es1 @ (e, d, b, t) # es2) \<longrightarrow>
       (\<exists>fi. parseFile \<lparr>vis = wire (es1 @ (e, d, b, t) # es2), spare = sp\<rparr> =
               Some (Inr (fi, None)) \<and>
             (t = 1 \<longrightarrow> File_Name fi = string_of b) \<and>
             (t = 2 \<longrightarrow> File_Package fi = string_of b) \<and>
             (t = 12 \<longrightarrow> File_Format fi = string_of b)))"
proof -
  let ?es = "es1 @ (e, d, b, t) # es2"
  let ?f = "fieldRun newField ?es"
  have field: "(t = 1 \<longrightarrow> Field_Name ?f = string_of b) \<and>
        (t = 3 \<longrightarrow> Field_Tag ?f = ucast d) \<and>
        (t = 4 \<longrightarrow> Field_Label ?f = ucast d) \<and>
        (t = 5 \<longrightarrow> Field_Type ?f = ucast d) \<and>
        (t = 9 \<longrightarrow> Field_OneOfIndex ?f = ucast d)"
    using fieldRun_keep [OF assms(2), of "fieldSwitch (fieldRun newField es1) t d b"]
    by (auto simp: fieldRun_append fieldSwitch_def)
  have mes: "\<exists>m. parseMessage \<lparr>vis = wire ?es, spare = sp\<rparr> = Some (Inr (m, None)) \<and>
            (t = 1 \<longrightarrow> Message_Name m = string_of b)"
    if ok: "fieldsDecode ?es" "messagesDecode ?es"
  proof -
    obtain m where run: "messageRun newMessage ?es = Some m"
      using messageRun_total [OF ok] by blast
    then have pm: "parseMessage \<lparr>vis = wire ?es, spare = sp\<rparr> = Some (Inr (m, None))"
      using parseMessage_run [OF assms(1), of sp m] by simp
    have "Message_Name m = string_of b" if t1: "t = 1"
    proof -
      obtain m1 where "messageRun newMessage es1 = Some m1"
        and "messageRun (Message (string_of b) (Message_Field m1) (Message_Nested m1)) es2 = Some m"
        using run t1 by (auto simp: messageRun_append split: Option.bind_splits)
      then show ?thesis using messageRun_keep [of _ es2 m] assms(2) t1 by force
    qed
    with pm show ?thesis by blast
  qed
  have fil: "\<exists>fi. parseFile \<lparr>vis = wire ?es, spare = sp\<rparr> = Some (Inr (fi, None)) \<and>
        (t = 1 \<longrightarrow> File_Name fi = string_of b) \<and>
        (t = 2 \<longrightarrow> File_Package fi = string_of b) \<and>
        (t = 12 \<longrightarrow> File_Format fi = string_of b)"
    if ok: "messagesDecode ?es"
  proof -
    obtain fi where run: "fileRun newFile ?es = Some fi"
      using fileRun_total [OF ok] by blast
    then have pf: "parseFile \<lparr>vis = wire ?es, spare = sp\<rparr> = Some (Inr (fi, None))"
      using parseFile_run [OF assms(1), of sp fi] by simp
    obtain f1 where "fileRun newFile es1 = Some f1" and "fileRun f1 ((e, d, b, t) # es2) = Some fi"
      using run by (auto simp: fileRun_append split: Option.bind_splits)
    then have "(t = 1 \<longrightarrow> File_Name fi = string_of b) \<and>
        (t = 2 \<longrightarrow> File_Package fi = string_of b) \<and>
        (t = 12 \<longrightarrow> File_Format fi = string_of b)"
      using fileRun_keep [of _ es2 fi t] assms(2)
      by (auto split: if_splits option.splits sum.splits)
    with pf show ?thesis by blast
  qed
  show ?thesis
    using parseField_run [OF assms(1), of sp] field mes fil by blast
qed

theorem last_entry_wins_witness:
  "list_all entry [([0x18, 5], 5, nil, 3), ([0x18, 7], 7, nil, 3)] \<and>
   (\<exists>f. parseField (bytes twoTagsField) = Some (Inr (f, None)) \<and> Field_Tag f = 7) \<and>
   list_all entry namedTwice \<and> fieldsDecode namedTwice \<and> messagesDecode namedTwice \<and>
   (\<exists>m. parseMessage (bytes (wire namedTwice)) = Some (Inr (m, None)) \<and>
        Message_Name m = ''b'') \<and>
   list_all entry twoOfEach \<and> messagesDecode twoOfEach \<and>
   (\<exists>fi. parseFile (bytes (wire twoOfEach)) = Some (Inr (fi, None)) \<and>
         File_Name fi = ''b'' \<and> File_Package fi = ''q'' \<and> File_Format fi = ''g'')"
proof -
  have e1: "list_all entry ([([0x18, 5], 5, nil, 3)] @ ([0x18, 7], 7, nil, 3) # [])"
    by (simp add: entry_def wire_defs)
  have t1: "(3 :: tagNum) \<notin> tagOf ` set []" by simp
  have w1: "wire ([([0x18, 5], 5, nil, 3)] @ ([0x18, 7], 7, nil, 3) # []) = twoTagsField"
    by (simp add: twoTagsField_def)
  have field: "\<exists>f. parseField (bytes twoTagsField) = Some (Inr (f, None)) \<and> Field_Tag f = 7"
    using last_entry_wins [OF e1 t1, of "[]", unfolded w1] by (simp add: bytes_def)

  have nil_field: "parseField (bytes []) = Some (Inr (newField, None))"
    by (simp add: wire_defs walker_defs)
  have nil_message: "parseMessage (bytes []) = Some (Inr (newMessage, None))"
    by (simp add: wire_defs walker_defs)
  have sb: "string_of (bytes [0x62]) = ''b''" "string_of (bytes [0x71]) = ''q''"
    "string_of (bytes [0x67]) = ''g''"
    by code_simp+

  let ?n1 = "[([0x0a, 1, 0x61], 0, bytes [0x61], 1), ([0x12, 0], 0, bytes [], 2),
              ([0x22, 0], 0, bytes [], 4)] :: item list"
  have en: "list_all entry namedTwice"
    by (simp add: namedTwice_def entry_def wire_defs)
  have fn: "fieldsDecode namedTwice"
    by (simp add: namedTwice_def fieldsDecode_def nil_field)
  have mn: "messagesDecode namedTwice"
    by (simp add: namedTwice_def messagesDecode_def nil_message)
  have dn: "?n1 @ ([0x0a, 1, 0x62], 0, bytes [0x62], 1) # [] = namedTwice"
    by (simp add: namedTwice_def)
  have tn: "(1 :: tagNum) \<notin> tagOf ` set []" by simp
  have mes: "\<exists>m. parseMessage (bytes (wire namedTwice)) = Some (Inr (m, None)) \<and>
        Message_Name m = ''b''"
    using last_entry_wins [of ?n1 "[0x0a, 1, 0x62]" 0 "bytes [0x62]" 1 "[]" "[]", unfolded dn, OF en tn]
      fn mn
    by (simp add: sb) (simp add: bytes_def)

  let ?a = "([0x0a, 1, 0x61], 0, bytes [0x61], 1) :: item"
  let ?p = "([0x12, 1, 0x70], 0, bytes [0x70], 2) :: item"
  let ?f = "([0x62, 1, 0x66], 0, bytes [0x66], 12) :: item"
  let ?m = "([0x22, 0], 0, bytes [], 4) :: item"
  let ?q = "([0x12, 1, 0x71], 0, bytes [0x71], 2) :: item"
  let ?g = "([0x62, 1, 0x67], 0, bytes [0x67], 12) :: item"
  have ef: "list_all entry twoOfEach"
    by (simp add: twoOfEach_def entry_def wire_defs)
  have mf: "messagesDecode twoOfEach"
    by (simp add: twoOfEach_def messagesDecode_def nil_message)
  have d1: "[?a, ?p, ?f, ?m] @ ([0x0a, 1, 0x62], 0, bytes [0x62], 1) # [?q, ?g] = twoOfEach"
    and d2: "[?a, ?p, ?f, ?m, ([0x0a, 1, 0x62], 0, bytes [0x62], 1)] @
             ([0x12, 1, 0x71], 0, bytes [0x71], 2) # [?g] = twoOfEach"
    and d3: "[?a, ?p, ?f, ?m, ([0x0a, 1, 0x62], 0, bytes [0x62], 1), ?q] @
             ([0x62, 1, 0x67], 0, bytes [0x67], 12) # [] = twoOfEach"
    by (simp_all add: twoOfEach_def)
  have k1: "(1 :: tagNum) \<notin> tagOf ` set [?q, ?g]"
    and k2: "(2 :: tagNum) \<notin> tagOf ` set [?g]"
    and k3: "(12 :: tagNum) \<notin> tagOf ` set []"
    by (simp_all add: tagOf_def)
  have r1: "\<exists>fi. parseFile (bytes (wire twoOfEach)) = Some (Inr (fi, None)) \<and> File_Name fi = ''b''"
    using last_entry_wins [of "[?a, ?p, ?f, ?m]" "[0x0a, 1, 0x62]" 0 "bytes [0x62]" 1 "[?q, ?g]" "[]",
        unfolded d1, OF ef k1] mf
    by (simp add: sb) (simp add: bytes_def)
  have r2: "\<exists>fi. parseFile (bytes (wire twoOfEach)) = Some (Inr (fi, None)) \<and>
      File_Package fi = ''q''"
    using last_entry_wins [of "[?a, ?p, ?f, ?m, ([0x0a, 1, 0x62], 0, bytes [0x62], 1)]"
        "[0x12, 1, 0x71]" 0 "bytes [0x71]" 2 "[?g]" "[]", unfolded d2, OF ef k2] mf
    by (simp add: sb) (simp add: bytes_def)
  have r3: "\<exists>fi. parseFile (bytes (wire twoOfEach)) = Some (Inr (fi, None)) \<and>
      File_Format fi = ''g''"
    using last_entry_wins [of "[?a, ?p, ?f, ?m, ([0x0a, 1, 0x62], 0, bytes [0x62], 1), ?q]"
        "[0x62, 1, 0x67]" 0 "bytes [0x67]" 12 "[]" "[]", unfolded d3, OF ef k3] mf
    by (simp add: sb) (simp add: bytes_def)
  from r1 r2 r3 have fil: "\<exists>fi. parseFile (bytes (wire twoOfEach)) = Some (Inr (fi, None)) \<and>
         File_Name fi = ''b'' \<and> File_Package fi = ''q'' \<and> File_Format fi = ''g''"
    by auto
  from e1 field en fn mn mes ef mf fil show ?thesis by simp
qed

section \<open>Results on failure\<close>

lemma parseDescriptorLoop_files:
  assumes "parseDescriptorLoop msg i files = Some y"
  shows "\<forall>fs r. y = Inr (fs, r) \<longrightarrow> list_all fileOk files \<longrightarrow> list_all fileOk fs"
proof (rule parseDescriptorLoop.raw_induct
    [where P = "\<lambda>msg i files y.
        \<forall>fs r. y = Inr (fs, r) \<longrightarrow> list_all fileOk files \<longrightarrow> list_all fileOk fs", OF _ assms])
  fix g :: "slice \<Rightarrow> int \<Rightarrow> File list \<Rightarrow> (File list) parsed"
    and msg i files y
  assume IH: "\<And>msg i files y. g msg i files = Some y \<Longrightarrow>
      \<forall>fs r. y = Inr (fs, r) \<longrightarrow> list_all fileOk files \<longrightarrow> list_all fileOk fs"
    and body: "(if i < len msg then
        (case readNextAt msg i of
           Inl e \<Rightarrow> Some (Inl e)
         | Inr (d, b, t, n) \<Rightarrow>
             if n = 0 then Some (Inr (files, Some i))
             else if t = 1 then
               Option.bind (parseFile b) (\<lambda>r.
                 case r of
                   Inl e \<Rightarrow> Some (Inl e)
                 | Inr (f, Some err) \<Rightarrow> Some (Inr (files, Some (i + err)))
                 | Inr (f, None) \<Rightarrow> g msg (i + n) (files @ [f]))
             else g msg (i + n) files)
      else Some (Inr (files, None))) = Some y"
  show "\<forall>fs r. y = Inr (fs, r) \<longrightarrow> list_all fileOk files \<longrightarrow> list_all fileOk fs"
    using body
    by (auto simp: fileOk_def split: if_splits sum.splits prod.splits option.splits
        Option.bind_splits dest!: IH)
qed

lemma parseFileLoop_messages:
  assumes "parseFileLoop msg i f = Some y"
  shows "\<forall>f' r. y = Inr (f', r) \<longrightarrow> list_all messageOk (File_Message f) \<longrightarrow>
           list_all messageOk (File_Message f')"
proof (rule parseFileLoop.raw_induct
    [where P = "\<lambda>msg i f y. \<forall>f' r. y = Inr (f', r) \<longrightarrow> list_all messageOk (File_Message f) \<longrightarrow>
           list_all messageOk (File_Message f')", OF _ assms])
  fix g :: "slice \<Rightarrow> int \<Rightarrow> File \<Rightarrow> File parsed"
    and msg i f y
  assume IH: "\<And>msg i f y. g msg i f = Some y \<Longrightarrow>
      \<forall>f' r. y = Inr (f', r) \<longrightarrow> list_all messageOk (File_Message f) \<longrightarrow>
           list_all messageOk (File_Message f')"
    and body: "(if i < len msg then
        (case readNextAt msg i of
           Inl e \<Rightarrow> Some (Inl e)
         | Inr (d, b, t, n) \<Rightarrow>
             if n = 0 then Some (Inr (f, Some i))
             else if t = 1 then g msg (i + n) (f\<lparr>File_Name := string_of b\<rparr>)
             else if t = 2 then g msg (i + n) (f\<lparr>File_Package := string_of b\<rparr>)
             else if t = 4 then
               Option.bind (parseMessage b) (\<lambda>r.
                 case r of
                   Inl e \<Rightarrow> Some (Inl e)
                 | Inr (m, Some err) \<Rightarrow> Some (Inr (f, Some (i + err)))
                 | Inr (m, None) \<Rightarrow>
                     g msg (i + n) (f\<lparr>File_Message := File_Message f @ [m]\<rparr>))
             else if t = 12 then g msg (i + n) (f\<lparr>File_Format := string_of b\<rparr>)
             else g msg (i + n) f)
      else Some (Inr (f, None))) = Some y"
  show "\<forall>f' r. y = Inr (f', r) \<longrightarrow> list_all messageOk (File_Message f) \<longrightarrow>
           list_all messageOk (File_Message f')"
    using body
    by (auto simp: messageOk_def split: if_splits sum.splits prod.splits option.splits
        Option.bind_splits dest!: IH)
qed

lemma parseMessageLoop_parts:
  assumes "parseMessageLoop msg i m = Some y"
  shows "\<forall>m' r. y = Inr (m', r) \<longrightarrow> messageInv m \<longrightarrow> messageInv m'"
proof -
  let ?Q = "\<lambda>m y. \<forall>m' r. y = Inr (m', r) \<longrightarrow> messageInv m \<longrightarrow> messageInv m'"
  let ?P = "\<lambda>msg i m y. parseMessageLoop msg i m = Some y \<and> ?Q m y"
  have "?P msg i m y"
  proof (rule parseMessageLoop.raw_induct [where P = ?P, OF _ assms])
    fix g :: "slice \<Rightarrow> int \<Rightarrow> Message \<Rightarrow> Message parsed"
      and msg i m y
    assume IH: "\<And>msg i m y. g msg i m = Some y \<Longrightarrow> ?P msg i m y"
      and body: "(if i < len msg then
        (case readNextAt msg i of
           Inl e \<Rightarrow> Some (Inl e)
         | Inr (d, b, t, n) \<Rightarrow>
             if n = 0 then Some (Inr (m, Some i))
             else if t = 1 then
               g msg (i + n)
                 (Message (string_of b) (Message_Field m) (Message_Nested m))
             else if t = 2 then
               Option.bind (parseField b) (\<lambda>r.
                 case r of
                   Inl e \<Rightarrow> Some (Inl e)
                 | Inr (f, Some err) \<Rightarrow> Some (Inr (m, Some (i + err)))
                 | Inr (f, None) \<Rightarrow>
                     g msg (i + n)
                       (Message (Message_Name m) (Message_Field m @ [f]) (Message_Nested m)))
             else if t = 4 then
               Option.bind (g b 0 newMessage) (\<lambda>r.
                 case r of
                   Inl e \<Rightarrow> Some (Inl e)
                 | Inr (nm, Some err) \<Rightarrow> Some (Inr (m, Some (i + err)))
                 | Inr (nm, None) \<Rightarrow>
                     g msg (i + n)
                       (Message (Message_Name m) (Message_Field m) (Message_Nested m @ [nm])))
             else g msg (i + n) m)
      else Some (Inr (m, None))) = Some y"
    show "?P msg i m y"
    proof (cases "i < len msg")
      case False
      then have "y = Inr (m, None)" using body by simp
      moreover have "parseMessageLoop msg i m = Some (Inr (m, None))"
        using False by (subst parseMessageLoop.simps) simp
      ultimately show ?thesis by simp
    next
      case True
      show ?thesis
      proof (cases "readNextAt msg i")
        case (Inl e)
        then have "y = Inl e" using body True by simp
        moreover have "parseMessageLoop msg i m = Some (Inl e)"
          using True Inl by (subst parseMessageLoop.simps) simp
        ultimately show ?thesis by simp
      next
        case (Inr rd)
        obtain d b t n where rd: "rd = (d, b, t, n)" by (cases rd)
        note unf = parseMessageLoop.simps [of msg i m]
        consider (stop) "n = 0" | (name) "n \<noteq> 0" "t = 1" | (field) "n \<noteq> 0" "t = 2"
          | (nested) "n \<noteq> 0" "t = 4" | (skip) "n \<noteq> 0" "t \<noteq> 1" "t \<noteq> 2" "t \<noteq> 4"
          by blast
        then show ?thesis
        proof cases
          case stop
          then have "y = Inr (m, Some i)" using body True Inr rd by simp
          moreover have "parseMessageLoop msg i m = Some (Inr (m, Some i))"
            using True Inr rd stop by (simp add: unf)
          ultimately show ?thesis by simp
        next
          case name
          let ?m = "Message (string_of b) (Message_Field m) (Message_Nested m)"
          have "g msg (i + n) ?m = Some y" using body True Inr rd name by simp
          from IH [OF this] have "parseMessageLoop msg (i + n) ?m = Some y" and "?Q ?m y"
            by simp_all
          moreover have "parseMessageLoop msg i m = parseMessageLoop msg (i + n) ?m"
            using True Inr rd name by (simp add: unf)
          ultimately show ?thesis by (simp add: messageInv_def)
        next
          case skip
          have "g msg (i + n) m = Some y" using body True Inr rd skip by simp
          from IH [OF this] have "parseMessageLoop msg (i + n) m = Some y" and "?Q m y"
            by simp_all
          moreover have "parseMessageLoop msg i m = parseMessageLoop msg (i + n) m"
            using True Inr rd skip by (simp add: unf)
          ultimately show ?thesis by simp
        next
          case field
          have b2: "Option.bind (parseField b) (\<lambda>r.
                 case r of
                   Inl e \<Rightarrow> Some (Inl e)
                 | Inr (f, Some err) \<Rightarrow> Some (Inr (m, Some (i + err)))
                 | Inr (f, None) \<Rightarrow>
                     g msg (i + n)
                       (Message (Message_Name m) (Message_Field m @ [f]) (Message_Nested m)))
               = Some y"
            using body True Inr rd field by simp
          have u2: "parseMessageLoop msg i m = Option.bind (parseField b) (\<lambda>r.
                 case r of
                   Inl e \<Rightarrow> Some (Inl e)
                 | Inr (f, Some err) \<Rightarrow> Some (Inr (m, Some (i + err)))
                 | Inr (f, None) \<Rightarrow>
                     parseMessageLoop msg (i + n)
                       (Message (Message_Name m) (Message_Field m @ [f]) (Message_Nested m)))"
            using True Inr rd field by (simp add: unf)
          from b2 obtain r where r: "parseField b = Some r" by (cases "parseField b") auto
          show ?thesis
          proof (cases r)
            case (Inl e)
            then show ?thesis using b2 u2 r by auto
          next
            case (Inr fr)
            obtain f err where fr: "fr = (f, err)" by (cases fr)
            show ?thesis
            proof (cases err)
              case (Some off)
              then show ?thesis using b2 u2 r Inr fr by auto
            next
              case None
              let ?m = "Message (Message_Name m) (Message_Field m @ [f]) (Message_Nested m)"
              have "g msg (i + n) ?m = Some y" using b2 r Inr fr None by simp
              from IH [OF this] have "parseMessageLoop msg (i + n) ?m = Some y" and "?Q ?m y"
                by simp_all
              moreover have "fieldOk f" using r Inr fr None by (auto simp: fieldOk_def)
              ultimately show ?thesis using u2 r Inr fr None by (simp add: messageInv_def)
            qed
          qed
        next
          case nested
          have b4: "Option.bind (g b 0 newMessage) (\<lambda>r.
                 case r of
                   Inl e \<Rightarrow> Some (Inl e)
                 | Inr (nm, Some err) \<Rightarrow> Some (Inr (m, Some (i + err)))
                 | Inr (nm, None) \<Rightarrow>
                     g msg (i + n)
                       (Message (Message_Name m) (Message_Field m) (Message_Nested m @ [nm])))
               = Some y"
            using body True Inr rd nested by simp
          have u4: "parseMessageLoop msg i m = Option.bind (parseMessageLoop b 0 newMessage) (\<lambda>r.
                 case r of
                   Inl e \<Rightarrow> Some (Inl e)
                 | Inr (nm, Some err) \<Rightarrow> Some (Inr (m, Some (i + err)))
                 | Inr (nm, None) \<Rightarrow>
                     parseMessageLoop msg (i + n)
                       (Message (Message_Name m) (Message_Field m) (Message_Nested m @ [nm])))"
            using True Inr rd nested by (simp add: unf)
          from b4 obtain r where r: "g b 0 newMessage = Some r" by (cases "g b 0 newMessage") auto
          from IH [OF r] have pr: "parseMessageLoop b 0 newMessage = Some r" by simp
          show ?thesis
          proof (cases r)
            case (Inl e)
            then show ?thesis using b4 u4 r pr by auto
          next
            case (Inr fr)
            obtain nm err where fr: "fr = (nm, err)" by (cases fr)
            show ?thesis
            proof (cases err)
              case (Some off)
              then show ?thesis using b4 u4 r pr Inr fr by auto
            next
              case None
              let ?m = "Message (Message_Name m) (Message_Field m) (Message_Nested m @ [nm])"
              have "g msg (i + n) ?m = Some y" using b4 r Inr fr None by simp
              from IH [OF this] have "parseMessageLoop msg (i + n) ?m = Some y" and "?Q ?m y"
                by simp_all
              moreover have "messageOk nm"
                using pr Inr fr None by (auto simp: messageOk_def parseMessage_def)
              ultimately show ?thesis using u4 pr Inr fr None by (simp add: messageInv_def)
            qed
          qed
        qed
      qed
    qed
  qed
  then show ?thesis by simp
qed

lemma parseDescriptorLoop_prefix:
  assumes "list_all entry es" and "setRun files es = Some fs"
  shows "parseDescriptorLoop \<lparr>vis = pre @ wire es @ rest, spare = sp\<rparr> (int (length pre)) files =
         parseDescriptorLoop \<lparr>vis = pre @ wire es @ rest, spare = sp\<rparr>
           (int (length (pre @ wire es))) fs"
  using assms
proof (induction es arbitrary: pre files)
  case Nil
  then show ?case by simp
next
  case (Cons it es)
  obtain e d b t where it: "it = (e, d, b, t)" by (cases it)
  have en: "entry (e, d, b, t)" and es: "list_all entry es" using Cons.prems by (simp_all add: it)
  note step = parseDescriptorLoop_step [OF en, of pre "wire es @ rest" sp files]
  show ?case
  proof (cases "t = 1")
    case False
    then have "setRun files es = Some fs" using Cons.prems(2) by (simp add: it)
    from Cons.IH [OF es this, of "pre @ e"] show ?thesis
      using False by (simp add: it step)
  next
    case True
    then obtain f where f: "parseFile b = Some (Inr (f, None))"
      and run: "setRun (files @ [f]) es = Some fs"
      using Cons.prems(2) by (auto simp: it split: option.splits sum.splits)
    from Cons.IH [OF es run, of "pre @ e"] show ?thesis
      using True f by (simp add: it step)
  qed
qed

lemma parseDescriptorLoop_bad:
  assumes "bad \<noteq> []" and "readNext \<lparr>vis = bad, spare = sp\<rparr> = Inr (d, b, t, 0)"
  shows "parseDescriptorLoop \<lparr>vis = pre @ bad, spare = sp\<rparr> (int (length pre)) fs =
         Some (Inr (fs, Some (int (length pre))))"
proof -
  have "int (length pre) < len \<lparr>vis = pre @ bad, spare = sp\<rparr>"
    using assms(1) by (cases bad) (simp_all add: len_def)
  moreover have "readNextAt \<lparr>vis = pre @ bad, spare = sp\<rparr> (int (length pre)) = Inr (d, b, t, 0)"
    using assms(2) by (simp add: readNextAt_def slice_from_def len_def)
  ultimately show ?thesis by (subst parseDescriptorLoop.simps) simp
qed

text \<open>
  Where a failure is reported. Let the buffer begin with entries whose Files are all
  decoded without error, \<open>fs\<close> being these Files in order. If \<open>readNext\<close> then reports
  0 bytes, \<open>parseDescriptor\<close> returns \<open>fs\<close> with the cursor; if the next entry is a
  File entry whose parse returns an error, it returns \<open>fs\<close>, without that File, with the
  cursor plus the error of the File. And in every result that a walker returns, every
  File, Message and Field held was itself decoded without error.
\<close>

lemma reported_failure_keeps_files:
  assumes "list_all entry es" and "setRun [] es = Some fs"
  shows
   "(bad \<noteq> [] \<and> readNext \<lparr>vis = bad, spare = sp\<rparr> = Inr (d, b, t, 0) \<longrightarrow>
       parseDescriptor \<lparr>vis = wire es @ bad, spare = sp\<rparr> =
         Some (Inr (fs, Some (int (length (wire es)))))) \<and>
    (entry (e, d', b', 1) \<and> parseFile b' = Some (Inr (pf, Some err)) \<longrightarrow>
       parseDescriptor \<lparr>vis = wire es @ e @ rest, spare = sp\<rparr> =
         Some (Inr (fs, Some (int (length (wire es)) + err)))) \<and>
    (parseDescriptor msg = Some (Inr (fs', r)) \<longrightarrow> list_all fileOk fs') \<and>
    (parseFile msg = Some (Inr (f, r)) \<longrightarrow> list_all messageOk (File_Message f)) \<and>
    (parseMessage msg = Some (Inr (m, r)) \<longrightarrow>
       list_all fieldOk (Message_Field m) \<and> list_all messageOk (Message_Nested m))"
proof -
  have 1: "parseDescriptor \<lparr>vis = wire es @ bad, spare = sp\<rparr> =
         Some (Inr (fs, Some (int (length (wire es)))))"
    if "bad \<noteq> []" "readNext \<lparr>vis = bad, spare = sp\<rparr> = Inr (d, b, t, 0)"
    using parseDescriptorLoop_prefix [OF assms, of "[]" bad sp]
      parseDescriptorLoop_bad [OF that, of "wire es" fs]
    by (simp add: parseDescriptor_def)
  have 2: "parseDescriptor \<lparr>vis = wire es @ e @ rest, spare = sp\<rparr> =
         Some (Inr (fs, Some (int (length (wire es)) + err)))"
    if "entry (e, d', b', 1)" "parseFile b' = Some (Inr (pf, Some err))"
    using parseDescriptorLoop_prefix [OF assms, of "[]" "e @ rest" sp]
      parseDescriptorLoop_step [OF that(1), of "wire es" rest sp fs] that(2)
    by (simp add: parseDescriptor_def)
  have 3: "list_all fileOk fs'" if "parseDescriptor msg = Some (Inr (fs', r))"
    using parseDescriptorLoop_files [of msg 0 "[]" "Inr (fs', r)"] that
    by (simp add: parseDescriptor_def)
  have 4: "list_all messageOk (File_Message f)" if "parseFile msg = Some (Inr (f, r))"
    using parseFileLoop_messages [of msg 0 newFile "Inr (f, r)"] that
    by (simp add: parseFile_def newFile_def)
  have 5: "list_all fieldOk (Message_Field m) \<and> list_all messageOk (Message_Nested m)"
    if "parseMessage msg = Some (Inr (m, r))"
    using parseMessageLoop_parts [of msg 0 newMessage "Inr (m, r)"] that
    by (simp add: parseMessage_def newMessage_def messageInv_def)
  from 1 2 3 4 5 show ?thesis by blast
qed

text \<open>
  The same one level down: when the parse of a nested Message or Field returns an error,
  \<open>parseFile\<close> and \<open>parseMessage\<close> return an error with the entity built from the
  entries before, to which the failed entity is not appended; the caller drops both.
\<close>

lemma parseFileLoop_prefix:
  assumes "list_all entry es" and "fileRun f es = Some f'"
  shows "parseFileLoop \<lparr>vis = pre @ wire es @ rest, spare = sp\<rparr> (int (length pre)) f =
         parseFileLoop \<lparr>vis = pre @ wire es @ rest, spare = sp\<rparr>
           (int (length (pre @ wire es))) f'"
  using assms
proof (induction es arbitrary: pre f)
  case Nil
  then show ?case by simp
next
  case (Cons it es)
  obtain e d b t where it: "it = (e, d, b, t)" by (cases it)
  have en: "entry (e, d, b, t)" and es: "list_all entry es" using Cons.prems by (simp_all add: it)
  note step = parseFileLoop_step [OF en, of pre "wire es @ rest" sp f]
  consider (name) "t = 1" | (package) "t = 2" | (message) "t = 4" | (format) "t = 12"
    | (skip) "t \<noteq> 1" "t \<noteq> 2" "t \<noteq> 4" "t \<noteq> 12" by blast
  then show ?case
  proof cases
    case name
    then have "fileRun (f\<lparr>File_Name := string_of b\<rparr>) es = Some f'"
      using Cons.prems(2) by (simp add: it)
    from Cons.IH [OF es this, of "pre @ e"] show ?thesis using name by (simp add: it step)
  next
    case package
    then have "fileRun (f\<lparr>File_Package := string_of b\<rparr>) es = Some f'"
      using Cons.prems(2) by (simp add: it)
    from Cons.IH [OF es this, of "pre @ e"] show ?thesis using package by (simp add: it step)
  next
    case message
    then obtain m where m: "parseMessage b = Some (Inr (m, None))"
      and run: "fileRun (f\<lparr>File_Message := File_Message f @ [m]\<rparr>) es = Some f'"
      using Cons.prems(2) by (auto simp: it split: option.splits sum.splits)
    from Cons.IH [OF es run, of "pre @ e"] show ?thesis using message m by (simp add: it step)
  next
    case format
    then have "fileRun (f\<lparr>File_Format := string_of b\<rparr>) es = Some f'"
      using Cons.prems(2) by (simp add: it)
    from Cons.IH [OF es this, of "pre @ e"] show ?thesis using format by (simp add: it step)
  next
    case skip
    then have "fileRun f es = Some f'" using Cons.prems(2) by (simp add: it)
    from Cons.IH [OF es this, of "pre @ e"] show ?thesis using skip by (simp add: it step)
  qed
qed

lemma parseMessageLoop_prefix:
  assumes "list_all entry es" and "messageRun m es = Some m'"
  shows "parseMessageLoop \<lparr>vis = pre @ wire es @ rest, spare = sp\<rparr> (int (length pre)) m =
         parseMessageLoop \<lparr>vis = pre @ wire es @ rest, spare = sp\<rparr>
           (int (length (pre @ wire es))) m'"
  using assms
proof (induction es arbitrary: pre m)
  case Nil
  then show ?case by simp
next
  case (Cons it es)
  obtain e d b t where it: "it = (e, d, b, t)" by (cases it)
  have en: "entry (e, d, b, t)" and es: "list_all entry es" using Cons.prems by (simp_all add: it)
  note step = parseMessageLoop_step [OF en, of pre "wire es @ rest" sp m]
  consider (name) "t = 1" | (field) "t = 2" | (nested) "t = 4"
    | (skip) "t \<noteq> 1" "t \<noteq> 2" "t \<noteq> 4" by blast
  then show ?case
  proof cases
    case name
    then have "messageRun (Message (string_of b) (Message_Field m) (Message_Nested m)) es = Some m'"
      using Cons.prems(2) by (simp add: it)
    from Cons.IH [OF es this, of "pre @ e"] show ?thesis using name by (simp add: it step)
  next
    case field
    then obtain f where f: "parseField b = Some (Inr (f, None))"
      and run: "messageRun (Message (Message_Name m) (Message_Field m @ [f]) (Message_Nested m)) es
                = Some m'"
      using Cons.prems(2) by (auto simp: it split: option.splits sum.splits)
    from Cons.IH [OF es run, of "pre @ e"] show ?thesis using field f by (simp add: it step)
  next
    case nested
    then obtain nm where nm: "parseMessage b = Some (Inr (nm, None))"
      and run: "messageRun (Message (Message_Name m) (Message_Field m) (Message_Nested m @ [nm])) es
                = Some m'"
      using Cons.prems(2) by (auto simp: it split: option.splits sum.splits)
    from Cons.IH [OF es run, of "pre @ e"] show ?thesis using nested nm by (simp add: it step)
  next
    case skip
    then have "messageRun m es = Some m'" using Cons.prems(2) by (simp add: it)
    from Cons.IH [OF es this, of "pre @ e"] show ?thesis using skip by (simp add: it step)
  qed
qed

lemma parseFile_nested_failure:
  assumes "list_all entry es" and "fileRun newFile es = Some f"
    and "entry (e, d, b, 4)" and "parseMessage b = Some (Inr (pm, Some err))"
  shows "parseFile \<lparr>vis = wire es @ e @ rest, spare = sp\<rparr> =
         Some (Inr (f, Some (int (length (wire es)) + err)))"
  using parseFileLoop_prefix [OF assms(1,2), of "[]" "e @ rest" sp]
    parseFileLoop_step [OF assms(3), of "wire es" rest sp f] assms(4)
  by (simp add: parseFile_def)

lemma parseMessage_nested_failure:
  assumes "list_all entry es" and "messageRun newMessage es = Some m"
  shows "entry (e, d, b, 2) \<Longrightarrow> parseField b = Some (Inr (pf, Some err)) \<Longrightarrow>
         parseMessage \<lparr>vis = wire es @ e @ rest, spare = sp\<rparr> =
         Some (Inr (m, Some (int (length (wire es)) + err)))"
    and "entry (e, d, b, 4) \<Longrightarrow> parseMessage b = Some (Inr (pm, Some err)) \<Longrightarrow>
         parseMessage \<lparr>vis = wire es @ e @ rest, spare = sp\<rparr> =
         Some (Inr (m, Some (int (length (wire es)) + err)))"
proof -
  note pre = parseMessageLoop_prefix [OF assms, of "[]" "e @ rest" sp]
  show "parseMessage \<lparr>vis = wire es @ e @ rest, spare = sp\<rparr> =
         Some (Inr (m, Some (int (length (wire es)) + err)))"
    if "entry (e, d, b, 2)" "parseField b = Some (Inr (pf, Some err))"
    using pre parseMessageLoop_step [OF that(1), of "wire es" rest sp m] that(2)
    by (simp add: parseMessage_def)
  show "parseMessage \<lparr>vis = wire es @ e @ rest, spare = sp\<rparr> =
         Some (Inr (m, Some (int (length (wire es)) + err)))"
    if "entry (e, d, b, 4)" "parseMessage b = Some (Inr (pm, Some err))"
    using pre parseMessageLoop_step [OF that(1), of "wire es" rest sp m] that(2)
    by (simp add: parseMessage_def)
qed

text \<open>
  C8: after a File has been decoded, \<open>parseDescriptor\<close> does not always return that File
  with the offset of the failure. In the first buffer the malformed byte is at offset 6
  and the offset returned is 4. In the second the payload of the second File entry is
  cut off (declared length 3, one byte left): with no capacity left the slice expression
  panics and nothing is returned; in the third the declared length is \<open>2^64 - 1\<close> and
  the panic does not depend on the capacity. In the last the backing array of the second
  buffer goes on with two zero bytes: they are read as the payload, and two Files are
  returned without error.
\<close>

theorem failure_loses_offset_or_files:
  "parseDescriptor (bytes [0x0a, 0x00, 0x0a, 0x03, 0x0a, 0x00, 0x80]) =
     Some (Inr ([newFile], Some 4)) \<and>
   parseDescriptor (bytes [0x0a, 0x00, 0x0a, 0x03, 0x01]) = Some (Inl SliceBounds) \<and>
   parseDescriptor
     \<lparr>vis = [0x0a, 0x00, 0x0a, 0xff, 0xff, 0xff, 0xff, 0xff, 0xff, 0xff, 0xff, 0xff, 0x01],
       spare = sp\<rparr> = Some (Inl SliceBounds) \<and>
   parseDescriptor \<lparr>vis = [0x0a, 0x00, 0x0a, 0x03, 0x01], spare = [0, 0]\<rparr> =
     Some (Inr ([newFile, newFile], None))"
  by (simp add: wire_defs walker_defs)

section \<open>The divergences in general\<close>

lemma uvarint_loop_pos:
  "uvarint_loop bs i s x = (v, pos) \<Longrightarrow> v \<noteq> 0 \<Longrightarrow> 0 < pos"
  by (induction bs i s x rule: uvarint_loop.induct) (auto split: if_splits)

lemma Uvarint_pos: "Uvarint data = (v, pos) \<Longrightarrow> v \<noteq> 0 \<Longrightarrow> 0 < pos"
  unfolding Uvarint_def by (rule uvarint_loop_pos)

text \<open>
  With a tag number other than 0 and wire type 5 or 1, \<open>readNext\<close> panics or returns a
  positive count, for every buffer: it has no result for a value that is too short.
\<close>

lemma fixed_width_never_fails:
  assumes "Uvarint data = (v, pos)"
    and "(ucast (drop_bit 3 v) :: tagNum) \<noteq> 0"
    and "(ucast (v AND 0x07) :: tagClass) = tag32bit \<or> (ucast (v AND 0x07) :: tagClass) = tag64bit"
  shows "(\<exists>e. readNext data = Inl e) \<or> (\<exists>d b t n. readNext data = Inr (d, b, t, n) \<and> 0 < n)"
proof -
  have "v \<noteq> 0" using assms(2) by auto
  then have "0 < pos" using Uvarint_pos [OF assms(1)] by simp
  then show ?thesis
    using assms
    by (auto simp: readNext_def Let_def kinds_distinct split: sum.splits)
qed

text \<open>
  When the buffer ends behind the header of a varint entry, \<open>readNext\<close> returns the value
  0 and the length of the header; so a Field payload of entries followed by the header
  of the tag number alone is decoded without error, with the tag number 0.
\<close>

lemma missing_varint_value:
  assumes "t \<noteq> 0"
  shows "readNext \<lparr>vis = header t tagUvarint, spare = sp\<rparr> =
         Inr (0, nil, t, int (length (header t tagUvarint)))"
proof -
  have k: "tagUvarint < 8" by (simp add: tagUvarint_def)
  have "Uvarint \<lparr>vis = header t tagUvarint @ [], spare = sp\<rparr> =
        (headerValue t tagUvarint, int (length (header t tagUvarint)))"
    by (rule Uvarint_header)
  then show ?thesis
    using assms
    by (simp add: readNext_def header_tag [OF k] header_kind [OF k] slice_from_def len_def
        Uvarint_def Let_def)
qed


text \<open>A header with the tag number 0 is reported with its length, for every wire type.\<close>

lemma tag_zero_header:
  assumes "k < 8"
  shows "readNext \<lparr>vis = header 0 k @ rest, spare = sp\<rparr> =
         Inr (ucast k, nil, 0, int (length (header 0 k)))"
  using header_tag [OF assms, of 0] header_kind [OF assms, of 0]
  by (simp add: readNext_def Uvarint_header Let_def)

lemma parseFieldLoop_prefix:
  assumes "list_all entry es"
  shows "parseFieldLoop \<lparr>vis = pre @ wire es @ rest, spare = sp\<rparr> (int (length pre)) f =
         parseFieldLoop \<lparr>vis = pre @ wire es @ rest, spare = sp\<rparr>
           (int (length (pre @ wire es))) (fieldRun f es)"
  using assms
proof (induction es arbitrary: pre f)
  case Nil
  then show ?case by simp
next
  case (Cons it es)
  obtain e d b t where it: "it = (e, d, b, t)" by (cases it)
  have en: "entry (e, d, b, t)" and es: "list_all entry es" using Cons.prems by (simp_all add: it)
  from Cons.IH [OF es, of "pre @ e" "fieldSwitch f t d b"]
  show ?case
    using parseFieldLoop_step [OF en, of pre "wire es @ rest" sp f] by (simp add: it)
qed

lemma parseField_missing_tag_value:
  assumes "list_all entry es"
  shows "parseField \<lparr>vis = wire es @ header 3 tagUvarint, spare = sp\<rparr> =
         Some (Inr ((fieldRun newField es)\<lparr>Field_Tag := 0\<rparr>, None))"
proof -
  let ?h = "header 3 tagUvarint"
  let ?msg = "\<lparr>vis = wire es @ ?h, spare = sp\<rparr>"
  let ?f = "fieldRun newField es"
  have h: "?h \<noteq> []" by (rule header_nonempty)
  have "parseField ?msg = parseFieldLoop ?msg (int (length (wire es))) ?f"
    using parseFieldLoop_prefix [OF assms, of "[]" ?h sp newField] by (simp add: parseField_def)
  also have "\<dots> = parseFieldLoop ?msg (int (length (wire es @ ?h))) (?f\<lparr>Field_Tag := 0\<rparr>)"
  proof -
    have "int (length (wire es)) < len ?msg" using h by (cases ?h) (simp_all add: len_def)
    moreover have "readNextAt ?msg (int (length (wire es))) = Inr (0, nil, 3, int (length ?h))"
      using missing_varint_value [of 3 sp] by (simp add: readNextAt_def slice_from_def len_def)
    ultimately show ?thesis
      using h by (subst parseFieldLoop.simps) (simp add: fieldSwitch_def)
  qed
  also have "\<dots> = Some (Inr (?f\<lparr>Field_Tag := 0\<rparr>, None))"
    by (rule parseFieldLoop_end)
  finally show ?thesis .
qed

text \<open>
  When the parse of the payload \<open>p\<close> of a File entry fails at its offset \<open>err\<close>, the
  offset that \<open>parseDescriptor\<close> returns is the offset of the entry plus \<open>err\<close>; the
  payload begins at least two bytes later.
\<close>

lemma nested_failure_offset:
  assumes "list_all entry es" and "setRun [] es = Some fs"
    and "length p < 2 ^ 62"
    and "parseFile (bytes p) = Some (Inr (pf, Some err))"
  shows "parseDescriptor
           \<lparr>vis = wire es @ (header 1 tagSequence @ putUvarint (of_nat (length p)) @ p) @ rest,
             spare = sp\<rparr> =
         Some (Inr (fs, Some (int (length (wire es)) + err))) \<and>
         int (length (wire es)) + 2 \<le>
         int (length (wire es @ header 1 tagSequence @ putUvarint (of_nat (length p))))"
proof -
  let ?e = "header 1 tagSequence @ putUvarint (of_nat (length p)) @ p"
  have en: "entry (?e, 0, bytes p, 1)" using entry_bytes [of 1 p] assms(3) by simp
  have "parseDescriptor \<lparr>vis = wire es @ ?e @ rest, spare = sp\<rparr> =
        Some (Inr (fs, Some (int (length (wire es)) + err)))"
    using parseDescriptorLoop_prefix [OF assms(1,2), of "[]" "?e @ rest" sp]
      parseDescriptorLoop_step [OF en, of "wire es" rest sp fs] assms(4)
    by (simp add: parseDescriptor_def)
  moreover have "1 \<le> length (header 1 tagSequence)"
    using header_nonempty [of 1 tagSequence] by (cases "header 1 tagSequence") simp_all
  moreover have "1 \<le> length (putUvarint (of_nat (length p) :: uint64))"
    using putUvarint_nonempty [of "of_nat (length p)"]
    by (cases "putUvarint (of_nat (length p) :: uint64)") simp_all
  ultimately show ?thesis by simp
qed

end
